theory Spec2Isabelle
  imports Main "HOL-Library.Char_ord" "HOL-Library.List_Lexorder"
begin

section \<open>JavaScript values as the analyzer sees them\<close>

text \<open>
  The analyzer of \<^verbatim>\<open>src/index.ts\<close> walks parsed OpenAPI documents. Whatever the
  source types as \<^verbatim>\<open>any\<close> is a parsed JSON value here, and every operation the source
  applies to such a value is modelled on every kind of value, because a TypeScript cast
  (\<^verbatim>\<open>as Record<string, any>\<close>) changes nothing at run time. A
  \<^verbatim>\<open>Record<string, any>\<close> that an interface declares is the list of its own properties
  in enumeration order, with distinct keys. \<^verbatim>\<open>undefined\<close> is \<open>None\<close>.

  A number is kept as the string that \<^verbatim>\<open>String(n)\<close> gives of it (\<^verbatim>\<open>0\<close> also for
  \<^verbatim>\<open>-0\<close>): its truthiness, its text and its identity as a key are all that the analyzer
  can see of a number, and they are functions of that string.

  Limits of the model: a string is a list of 8-bit characters and case conversion acts on
  the ASCII letters only; a document is a tree (no shared or cyclic nodes); the order of
  the keys of a result object is the order in which they were added.

  What the methods compute is stated and proved on this embedding. Whether they change the
  objects they are given is a question about shared objects, and is answered on a second
  embedding of the same methods, in which every object has an address.
\<close>

datatype json =
  JNull
  | JBool bool
  | JNum string
  | JStr string
  | JArr "json list"
  | JObj "(string \<times> json) list"

type_synonym jsrecord = "(string \<times> json) list"

datatype error = TypeError

text \<open>Truthiness, as \<^verbatim>\<open>if (v)\<close>, \<^verbatim>\<open>v || d\<close> and \<^verbatim>\<open>!v\<close> test it.\<close>

fun truthy :: "json \<Rightarrow> bool" where
  "truthy JNull = False"
| "truthy (JBool b) = b"
| "truthy (JNum n) = (n \<noteq> ''0'' \<and> n \<noteq> ''NaN'')"
| "truthy (JStr s) = (s \<noteq> [])"
| "truthy (JArr xs) = True"
| "truthy (JObj kvs) = True"

text \<open>\<^verbatim>\<open>s || d\<close> on an optional string: the empty string is falsy too.\<close>

definition or_default :: "string option \<Rightarrow> string \<Rightarrow> string" where
  "or_default v d = (case v of None \<Rightarrow> d | Some s \<Rightarrow> if s = [] then d else s)"

text \<open>\<^verbatim>\<open>typeof v !== 'object' || v === null\<close> is false for objects and arrays only.\<close>

fun is_object :: "json \<Rightarrow> bool" where
  "is_object (JObj kvs) = True"
| "is_object (JArr xs) = True"
| "is_object v = False"

subsection \<open>Numbers and values as strings\<close>

definition digit_char :: "nat \<Rightarrow> char" where
  "digit_char n = ''0123456789'' ! (n mod 10)"

fun show_nat :: "nat \<Rightarrow> string" where
  "show_nat n = (if n < 10 then [digit_char n] else show_nat (n div 10) @ [digit_char n])"

fun js_join :: "string \<Rightarrow> string list \<Rightarrow> string" where
  "js_join sep [] = []"
| "js_join sep [x] = x"
| "js_join sep (x # y # ys) = x @ sep @ js_join sep (y # ys)"

text \<open>The results of a list of steps, or the exception of the first step that throws.\<close>

fun sequence :: "(error + 'a) list \<Rightarrow> error + 'a list" where
  "sequence [] = Inr []"
| "sequence (r # rs) =
     (case r of
        Inl e \<Rightarrow> Inl e
      | Inr v \<Rightarrow> (case sequence rs of Inl e \<Rightarrow> Inl e | Inr vs \<Rightarrow> Inr (v # vs)))"

text \<open>
  \<^verbatim>\<open>String(v)\<close>, which \<^verbatim>\<open>Array.prototype.join\<close> and a property key apply to a
  value. Inside an array, \<^verbatim>\<open>null\<close> prints as the empty string. An object prints as
  \<^verbatim>\<open>[object Object]\<close> through the \<^verbatim>\<open>toString\<close> it inherits; an object with a key
  \<^verbatim>\<open>toString\<close> of its own, which in a parsed document is never a function, cannot be
  converted, and the conversion throws.
\<close>

fun js_to_string :: "json \<Rightarrow> error + string" where
  "js_to_string JNull = Inr ''null''"
| "js_to_string (JBool b) = Inr (if b then ''true'' else ''false'')"
| "js_to_string (JNum n) = Inr n"
| "js_to_string (JStr s) = Inr s"
| "js_to_string (JArr xs) =
     (case sequence (map (\<lambda>x. if x = JNull then Inr [] else js_to_string x) xs) of
        Inl e \<Rightarrow> Inl e
      | Inr ss \<Rightarrow> Inr (js_join '','' ss))"
| "js_to_string (JObj kvs) =
     (if ''toString'' \<in> set (map fst kvs) then Inl TypeError else Inr ''[object Object]'')"

subsection \<open>Own properties\<close>

definition indexed :: "'a list \<Rightarrow> (string \<times> 'a) list" where
  "indexed xs = zip (map show_nat [0..<length xs]) xs"

text \<open>
  \<^verbatim>\<open>Object.entries(v)\<close>: the own enumerable properties. It throws on
  \<^verbatim>\<open>null\<close>; an array and a string list their indices; a number and a boolean have
  none.
\<close>

fun js_entries :: "json \<Rightarrow> error + jsrecord" where
  "js_entries JNull = Inl TypeError"
| "js_entries (JObj kvs) = Inr kvs"
| "js_entries (JArr xs) = Inr (indexed xs)"
| "js_entries (JStr s) = Inr (indexed (map (\<lambda>c. JStr [c]) s))"
| "js_entries (JBool b) = Inr []"
| "js_entries (JNum n) = Inr []"

definition js_keys :: "json \<Rightarrow> error + string list" where
  "js_keys v = (case js_entries v of Inl e \<Rightarrow> Inl e | Inr kvs \<Rightarrow> Inr (map fst kvs))"

text \<open>
  The own property \<open>k\<close> of a value that is not \<^verbatim>\<open>null\<close>. It is what a read
  \<^verbatim>\<open>v.k\<close> gives when nothing that \<open>v\<close> may inherit is named \<open>k\<close>, as with the
  names that the analyzer reads by name: \<^verbatim>\<open>summary\<close>, \<^verbatim>\<open>description\<close>,
  \<^verbatim>\<open>operationId\<close>, \<^verbatim>\<open>type\<close>, \<^verbatim>\<open>components\<close>, \<^verbatim>\<open>securitySchemes\<close>
  and \<^verbatim>\<open>schemas\<close>.
\<close>

fun own_prop :: "json \<Rightarrow> string \<Rightarrow> json option" where
  "own_prop (JObj kvs) k = map_of kvs k"
| "own_prop (JArr xs) k =
     (if k = ''length'' then Some (JNum (show_nat (length xs))) else map_of (indexed xs) k)"
| "own_prop (JStr s) k =
     (if k = ''length'' then Some (JNum (show_nat (length s)))
      else map_of (indexed (map (\<lambda>c. JStr [c]) s)) k)"
| "own_prop v k = None"

text \<open>\<^verbatim>\<open>v.k\<close>: a read of a property of \<^verbatim>\<open>null\<close> throws.\<close>

definition js_get :: "json \<Rightarrow> string \<Rightarrow> error + json option" where
  "js_get v k = (if v = JNull then Inl TypeError else Inr (own_prop v k))"

text \<open>\<^verbatim>\<open>v?.k\<close>: \<^verbatim>\<open>undefined\<close> when \<open>v\<close> is \<^verbatim>\<open>undefined\<close> or \<^verbatim>\<open>null\<close>.\<close>

definition opt_chain :: "json option \<Rightarrow> string \<Rightarrow> json option" where
  "opt_chain v k =
     (case v of None \<Rightarrow> None | Some w \<Rightarrow> if w = JNull then None else own_prop w k)"

subsection \<open>Inherited members\<close>

text \<open>
  The members that an object inherits from \<^verbatim>\<open>Object.prototype\<close>, and what
  \<^verbatim>\<open>String\<close> makes of each: the source text of a built-in function, and for
  \<^verbatim>\<open>__proto__\<close>, whose value is \<^verbatim>\<open>Object.prototype\<close> itself, the text of an
  object.
\<close>

definition object_prototype_names :: "string list" where
  "object_prototype_names =
     [''constructor'', ''__defineGetter__'', ''__defineSetter__'', ''hasOwnProperty'',
      ''__lookupGetter__'', ''__lookupSetter__'', ''isPrototypeOf'', ''propertyIsEnumerable'',
      ''toString'', ''valueOf'', ''__proto__'', ''toLocaleString'']"

definition inherited_text :: "string \<Rightarrow> string" where
  "inherited_text k =
     (if k = ''__proto__'' then ''[object Object]''
      else if k = ''constructor'' then ''function Object() { [native code] }''
      else ''function '' @ k @ ''() { [native code] }'')"

text \<open>
  The members that an array, a string and a number inherit before those of
  \<^verbatim>\<open>Object.prototype\<close> (ECMAScript 2023 with its annex B); a boolean inherits
  \<^verbatim>\<open>constructor\<close>, \<^verbatim>\<open>toString\<close> and \<^verbatim>\<open>valueOf\<close>, names that
  \<^verbatim>\<open>Object.prototype\<close> has too.
\<close>

definition array_prototype_names :: "string list" where
  "array_prototype_names =
     [''at'', ''concat'', ''copyWithin'', ''entries'', ''every'', ''fill'', ''filter'', ''find'',
      ''findIndex'', ''findLast'', ''findLastIndex'', ''flat'', ''flatMap'', ''forEach'',
      ''includes'', ''indexOf'', ''join'', ''keys'', ''lastIndexOf'', ''map'', ''pop'', ''push'',
      ''reduce'', ''reduceRight'', ''reverse'', ''shift'', ''slice'', ''some'', ''sort'',
      ''splice'', ''toReversed'', ''toSorted'', ''toSpliced'', ''unshift'', ''values'', ''with'']"

definition string_prototype_names :: "string list" where
  "string_prototype_names =
     [''anchor'', ''at'', ''big'', ''blink'', ''bold'', ''charAt'', ''charCodeAt'',
      ''codePointAt'', ''concat'', ''endsWith'', ''fixed'', ''fontcolor'', ''fontsize'',
      ''includes'', ''indexOf'', ''isWellFormed'', ''italics'', ''lastIndexOf'', ''link'',
      ''localeCompare'', ''match'', ''matchAll'', ''normalize'', ''padEnd'', ''padStart'',
      ''repeat'', ''replace'', ''replaceAll'', ''search'', ''slice'', ''small'', ''split'',
      ''startsWith'', ''strike'', ''sub'', ''substr'', ''substring'', ''sup'',
      ''toLocaleLowerCase'', ''toLocaleUpperCase'', ''toLowerCase'', ''toUpperCase'',
      ''toWellFormed'', ''trim'', ''trimEnd'', ''trimLeft'', ''trimRight'', ''trimStart'']"

definition number_prototype_names :: "string list" where
  "number_prototype_names = [''toExponential'', ''toFixed'', ''toPrecision'']"

fun inherited_names :: "json \<Rightarrow> string list" where
  "inherited_names JNull = []"
| "inherited_names (JBool b) = object_prototype_names"
| "inherited_names (JNum n) = number_prototype_names @ object_prototype_names"
| "inherited_names (JStr s) = string_prototype_names @ object_prototype_names"
| "inherited_names (JArr xs) = array_prototype_names @ object_prototype_names"
| "inherited_names (JObj kvs) = object_prototype_names"

text \<open>
  What a read \<^verbatim>\<open>v[k]\<close> with a key of any spelling gives, of a value that is not
  \<^verbatim>\<open>null\<close>: a value of the document, or a member that \<open>v\<close> inherits, which is
  a built-in function or prototype object and is truthy.
\<close>

datatype jsvalue = Data json | Builtin string

definition js_index :: "json \<Rightarrow> string \<Rightarrow> jsvalue option" where
  "js_index v k =
     (case own_prop v k of
        Some w \<Rightarrow> Some (Data w)
      | None \<Rightarrow> if k \<in> set (inherited_names v) then Some (Builtin k) else None)"

fun value_truthy :: "jsvalue \<Rightarrow> bool" where
  "value_truthy (Data w) = truthy w"
| "value_truthy (Builtin k) = True"

subsection \<open>Strings\<close>

definition upper_letters :: string where
  "upper_letters = ''ABCDEFGHIJKLMNOPQRSTUVWXYZ''"

definition lower_letters :: string where
  "lower_letters = ''abcdefghijklmnopqrstuvwxyz''"

definition lower_char :: "char \<Rightarrow> char" where
  "lower_char c = (case map_of (zip upper_letters lower_letters) c of None \<Rightarrow> c | Some d \<Rightarrow> d)"

definition upper_char :: "char \<Rightarrow> char" where
  "upper_char c = (case map_of (zip lower_letters upper_letters) c of None \<Rightarrow> c | Some d \<Rightarrow> d)"

definition toLowerCase :: "string \<Rightarrow> string" where
  "toLowerCase s = map lower_char s"

definition toUpperCase :: "string \<Rightarrow> string" where
  "toUpperCase s = map upper_char s"

primrec starts_with :: "string \<Rightarrow> string \<Rightarrow> bool" where
  "starts_with t [] = True"
| "starts_with t (c # q) = (case t of [] \<Rightarrow> False | d # t' \<Rightarrow> c = d \<and> starts_with t' q)"

text \<open>\<^verbatim>\<open>t.includes(q)\<close>: \<open>q\<close> occurs in \<open>t\<close> as a contiguous substring.\<close>

primrec js_includes :: "string \<Rightarrow> string \<Rightarrow> bool" where
  "js_includes [] q = (q = [])"
| "js_includes (c # t) q = (starts_with (c # t) q \<or> js_includes t q)"

section \<open>The data model\<close>

record OpenAPIInfo =
  title :: "string option"
  version :: "string option"
  description :: "string option"

datatype source_kind = Local | Remote

record SpecSource =
  src_type :: source_kind
  src_url :: "string option"
  src_apiInfo :: "json option"

record OpenAPISpec =
  filename :: string
  spec :: jsrecord
  info :: "OpenAPIInfo option"
  paths :: "jsrecord option"
  components :: "jsrecord option"
  source :: "SpecSource option"

record ApiSummary =
  s_filename :: string
  s_title :: string
  s_version :: string
  s_description :: string
  s_endpointCount :: nat

text \<open>\<^verbatim>\<open>spec.info?.title\<close> and its siblings.\<close>

definition info_title :: "OpenAPISpec \<Rightarrow> string option" where
  "info_title s = (case info s of None \<Rightarrow> None | Some i \<Rightarrow> title i)"

definition info_version :: "OpenAPISpec \<Rightarrow> string option" where
  "info_version s = (case info s of None \<Rightarrow> None | Some i \<Rightarrow> version i)"

definition info_description :: "OpenAPISpec \<Rightarrow> string option" where
  "info_description s = (case info s of None \<Rightarrow> None | Some i \<Rightarrow> description i)"

section \<open>listAllSpecs and getSpecByFilename\<close>

definition summary_of :: "OpenAPISpec \<Rightarrow> ApiSummary" where
  "summary_of s =
     \<lparr> s_filename = filename s,
       s_title = or_default (info_title s) ''No title'',
       s_version = or_default (info_version s) ''No version'',
       s_description = or_default (info_description s) ''No description'',
       s_endpointCount = (case paths s of None \<Rightarrow> 0 | Some ps \<Rightarrow> length (map fst ps)) \<rparr>"

definition listAllSpecs :: "OpenAPISpec list \<Rightarrow> ApiSummary list" where
  "listAllSpecs specs = map summary_of specs"

definition getSpecByFilename :: "OpenAPISpec list \<Rightarrow> string \<Rightarrow> jsrecord option" where
  "getSpecByFilename specs f =
     (case find (\<lambda>s. filename s = f) specs of None \<Rightarrow> None | Some s \<Rightarrow> Some (spec s))"

section \<open>Loops that may throw\<close>

text \<open>
  A \<^verbatim>\<open>for (const x of xs)\<close> loop over a state: an exception thrown by the body leaves
  the loop and the method.
\<close>

fun for_each :: "('s \<Rightarrow> 'a \<Rightarrow> error + 's) \<Rightarrow> 'a list \<Rightarrow> 's \<Rightarrow> error + 's" where
  "for_each body [] st = Inr st"
| "for_each body (x # xs) st =
     (case body st x of Inl e \<Rightarrow> Inl e | Inr st' \<Rightarrow> for_each body xs st')"

section \<open>searchEndpoints\<close>

record SearchResult =
  r_filename :: string
  r_api_title :: "string option"
  r_path :: string
  r_method :: string
  r_summary :: "json option"
  r_description :: "json option"
  r_operationId :: "json option"

text \<open>
  \<^verbatim>\<open>operationObj.summary || ''\<close>, as \<^verbatim>\<open>join\<close> prints it; \<^verbatim>\<open>join\<close> throws
  when an element cannot be converted to a string.
\<close>

definition or_empty :: "json option \<Rightarrow> error + string" where
  "or_empty v = (case v of None \<Rightarrow> Inr [] | Some w \<Rightarrow> if truthy w then js_to_string w else Inr [])"

definition searchableText :: "string \<Rightarrow> string \<Rightarrow> json \<Rightarrow> error + string" where
  "searchableText path method operation =
     (case sequence
        [Inr path, Inr method,
         or_empty (own_prop operation ''summary''),
         or_empty (own_prop operation ''description''),
         or_empty (own_prop operation ''operationId'')] of
        Inl e \<Rightarrow> Inl e
      | Inr parts \<Rightarrow> Inr (toLowerCase (js_join '' '' parts)))"

text \<open>The body of the innermost loop: skip what is not an object, push a match.\<close>

definition search_operation ::
  "string \<Rightarrow> OpenAPISpec \<Rightarrow> string \<Rightarrow> SearchResult list \<Rightarrow> string \<times> json
     \<Rightarrow> error + SearchResult list" where
  "search_operation lowerQuery s path results mo =
     (case mo of (method, operation) \<Rightarrow>
        if \<not> is_object operation then Inr results
        else
          (case searchableText path method operation of
             Inl e \<Rightarrow> Inl e
           | Inr text \<Rightarrow>
               if js_includes text lowerQuery
               then Inr (results @
                 [\<lparr> r_filename = filename s,
                    r_api_title = info_title s,
                    r_path = path,
                    r_method = toUpperCase method,
                    r_summary = own_prop operation ''summary'',
                    r_description = own_prop operation ''description'',
                    r_operationId = own_prop operation ''operationId'' \<rparr>])
               else Inr results))"

definition search_path ::
  "string \<Rightarrow> OpenAPISpec \<Rightarrow> SearchResult list \<Rightarrow> string \<times> json \<Rightarrow> error + SearchResult list" where
  "search_path lowerQuery s results pi =
     (case pi of (path, pathItem) \<Rightarrow>
        (case js_entries pathItem of
           Inl e \<Rightarrow> Inl e
         | Inr ops \<Rightarrow> for_each (search_operation lowerQuery s path) ops results))"

definition search_spec ::
  "string \<Rightarrow> SearchResult list \<Rightarrow> OpenAPISpec \<Rightarrow> error + SearchResult list" where
  "search_spec lowerQuery results s =
     (case paths s of
        None \<Rightarrow> Inr results
      | Some ps \<Rightarrow> for_each (search_path lowerQuery s) ps results)"

definition searchEndpoints :: "OpenAPISpec list \<Rightarrow> string \<Rightarrow> error + SearchResult list" where
  "searchEndpoints specs query = for_each (search_spec (toLowerCase query)) specs []"

section \<open>getApiStats\<close>

record ApiEntry =
  a_filename :: string
  a_title :: "string option"
  a_version :: "string option"
  a_endpointCount :: nat
  a_methods :: "string list"

text \<open>
  The three counter objects start as \<^verbatim>\<open>{}\<close> and are declared
  \<^verbatim>\<open>Record<string, number>\<close>. \<^verbatim>\<open>methodCounts\<close> is indexed by the upper case of one
  of the seven verbs only, so its properties hold numbers. \<^verbatim>\<open>commonPaths\<close> and
  \<^verbatim>\<open>versions\<close> are indexed by strings of the documents, and a property of theirs holds
  a number, or a string once its key has met a member that \<^verbatim>\<open>{}\<close> inherits.
\<close>

datatype counter = CNum nat | CStr string

record ApiStats =
  totalApis :: nat
  totalEndpoints :: nat
  methodCounts :: "(string \<times> nat) list"
  commonPaths :: "(string \<times> counter) list"
  versions :: "(string \<times> counter) list"
  apis :: "ApiEntry list"

definition httpMethods :: "string list" where
  "httpMethods = [''get'', ''post'', ''put'', ''delete'', ''patch'', ''options'', ''head'']"

text \<open>
  \<^verbatim>\<open>m[k] || 0\<close>, \<^verbatim>\<open>m[k] = v\<close> and \<^verbatim>\<open>m[k] = (m[k] || 0) + 1\<close> on
  \<^verbatim>\<open>methodCounts\<close>, whose keys are upper-cased verbs: none of them is the name of an
  inherited member, so a read finds the own property or nothing.
\<close>

definition count_of :: "(string \<times> nat) list \<Rightarrow> string \<Rightarrow> nat" where
  "count_of m k = (case map_of m k of None \<Rightarrow> 0 | Some n \<Rightarrow> n)"

fun set_prop :: "(string \<times> 'v) list \<Rightarrow> string \<Rightarrow> 'v \<Rightarrow> (string \<times> 'v) list" where
  "set_prop [] k v = [(k, v)]"
| "set_prop ((k', v') # m) k v = (if k' = k then (k, v) # m else (k', v') # set_prop m k v)"

definition increment :: "(string \<times> nat) list \<Rightarrow> string \<Rightarrow> (string \<times> nat) list" where
  "increment m k = set_prop m k (count_of m k + 1)"

text \<open>
  \<^verbatim>\<open>m[k] = (m[k] || 0) + 1\<close> on a counter object indexed by any string. The read finds
  the own property, else the inherited member, else \<^verbatim>\<open>undefined\<close>. A number gets one
  more; to a string, and to an inherited member (which is truthy and is converted to its
  text), \<^verbatim>\<open>+ 1\<close> appends the character \<^verbatim>\<open>1\<close>. The write makes or changes the own
  property, but under \<^verbatim>\<open>__proto__\<close> it calls the inherited setter, which ignores a
  string: nothing is stored.
\<close>

definition bump :: "(string \<times> counter) list \<Rightarrow> string \<Rightarrow> (string \<times> counter) list" where
  "bump m k =
     (case map_of m k of
        Some (CNum n) \<Rightarrow> set_prop m k (CNum (n + 1))
      | Some (CStr s) \<Rightarrow> set_prop m k (if s = [] then CNum 1 else CStr (s @ ''1''))
      | None \<Rightarrow>
          if k \<in> set object_prototype_names then
            (if k = ''__proto__'' then m else set_prop m k (CStr (inherited_text k @ ''1'')))
          else set_prop m k (CNum 1))"

text \<open>\<^verbatim>\<open>Set.prototype.add\<close>, the set in insertion order.\<close>

definition set_add :: "string list \<Rightarrow> string \<Rightarrow> string list" where
  "set_add xs x = (if x \<in> set xs then xs else xs @ [x])"

text \<open>
  \<^verbatim>\<open>path.replace(/\{[^}]+\}/g, '{id}')\<close>: at an opening brace the pattern matches when a
  closing brace follows after at least one other character; the match ends at the first
  closing brace, and the search goes on behind it.
\<close>

lemma dropWhile_shorter: "dropWhile P cs = b # rest \<Longrightarrow> length rest < Suc (length cs)"
proof -
  assume h: "dropWhile P cs = b # rest"
  have "length (dropWhile P cs) \<le> length cs" by (rule length_dropWhile_le)
  with h show ?thesis by simp
qed

function pathPattern :: "string \<Rightarrow> string" where
  "pathPattern [] = []"
| "pathPattern (c # cs) =
     (if c = CHR ''{'' then
        (case dropWhile (\<lambda>d. d \<noteq> CHR ''}'') cs of
           [] \<Rightarrow> c # pathPattern cs
         | b # rest \<Rightarrow>
             if takeWhile (\<lambda>d. d \<noteq> CHR ''}'') cs = [] then c # pathPattern cs
             else ''{id}'' @ pathPattern rest)
      else c # pathPattern cs)"
  by pat_completeness auto
termination
  by (relation "measure length") (auto dest: dropWhile_shorter)

text \<open>The variables of one iteration of the loop over the specs.\<close>

record scan =
  endpointCount :: nat
  apiMethods :: "string list"
  stats :: ApiStats

definition method_step :: "scan \<Rightarrow> string \<Rightarrow> scan" where
  "method_step sc method =
     (if toLowerCase method \<in> set httpMethods then
        (let upperMethod = toUpperCase method in
         sc\<lparr> endpointCount := endpointCount sc + 1,
             apiMethods := set_add (apiMethods sc) upperMethod,
             stats := (stats sc)\<lparr> methodCounts := increment (methodCounts (stats sc)) upperMethod \<rparr> \<rparr>)
      else sc)"

definition path_step :: "scan \<Rightarrow> string \<times> json \<Rightarrow> error + scan" where
  "path_step sc pi =
     (case pi of (path, pathItem) \<Rightarrow>
        (case js_keys pathItem of
           Inl e \<Rightarrow> Inl e
         | Inr ms \<Rightarrow>
             (let sc' = foldl method_step sc ms;
                  pattern = pathPattern path
              in Inr (sc'\<lparr> stats := (stats sc')\<lparr> commonPaths :=
                         bump (commonPaths (stats sc')) pattern \<rparr> \<rparr>))))"

definition spec_step :: "ApiStats \<Rightarrow> OpenAPISpec \<Rightarrow> error + ApiStats" where
  "spec_step st s =
     (let sc0 = \<lparr> endpointCount = 0, apiMethods = [], stats = st \<rparr> in
      case (case paths s of None \<Rightarrow> Inr sc0 | Some ps \<Rightarrow> for_each path_step ps sc0) of
        Inl e \<Rightarrow> Inl e
      | Inr sc \<Rightarrow>
          (let st1 = (stats sc)\<lparr> totalEndpoints := totalEndpoints (stats sc) + endpointCount sc \<rparr>;
               st2 = st1\<lparr> versions := bump (versions st1) (or_default (info_version s) ''unknown'') \<rparr>
           in Inr (st2\<lparr> apis := apis st2 @
                [\<lparr> a_filename = filename s,
                   a_title = info_title s,
                   a_version = info_version s,
                   a_endpointCount = endpointCount sc,
                   a_methods = sort (apiMethods sc) \<rparr>] \<rparr>)))"

definition getApiStats :: "OpenAPISpec list \<Rightarrow> error + ApiStats" where
  "getApiStats specs =
     for_each spec_step specs
       \<lparr> totalApis = length specs, totalEndpoints = 0, methodCounts = [],
         commonPaths = [], versions = [], apis = [] \<rparr>"

section \<open>findInconsistencies\<close>

record Inconsistency =
  i_type :: string
  i_message :: string
  i_details :: "(string \<times> string list) list"

text \<open>
  The keys of the \<^verbatim>\<open>Map\<close> are whatever the documents hold under \<^verbatim>\<open>type\<close>. A
  \<^verbatim>\<open>Map\<close> compares strings, numbers and booleans by value and objects by identity: an
  object or an array met in a document is a node of its own, so it equals no key met before.
\<close>

fun same_value_zero :: "json \<Rightarrow> json \<Rightarrow> bool" where
  "same_value_zero (JArr xs) w = False"
| "same_value_zero (JObj kvs) w = False"
| "same_value_zero v w = (v = w)"

type_synonym auth_map = "(json \<times> string list) list"

definition map_has :: "auth_map \<Rightarrow> json \<Rightarrow> bool" where
  "map_has m k = list_ex (\<lambda>e. same_value_zero k (fst e)) m"

text \<open>\<^verbatim>\<open>m.get(k)!.push(x)\<close> for a key that the map has.\<close>

fun map_push :: "auth_map \<Rightarrow> json \<Rightarrow> string \<Rightarrow> auth_map" where
  "map_push [] k x = []"
| "map_push ((k', xs) # m) k x =
     (if same_value_zero k k' then (k', xs @ [x]) # m else (k', xs) # map_push m k x)"

text \<open>
  \<^verbatim>\<open>if (!m.has(k)) m.set(k, []); m.get(k)!.push(x)\<close>: a key that the map lacks gets a new
  entry at the end, which the \<^verbatim>\<open>push\<close> then fills.
\<close>

definition map_note :: "auth_map \<Rightarrow> json \<Rightarrow> string \<Rightarrow> auth_map" where
  "map_note m k x = (if map_has m k then map_push m k x else m @ [(k, [x])])"

definition scheme_step :: "string \<Rightarrow> auth_map \<Rightarrow> string \<times> json \<Rightarrow> error + auth_map" where
  "scheme_step fname m ns =
     (case ns of (name, scheme) \<Rightarrow>
        (case js_get scheme ''type'' of
           Inl e \<Rightarrow> Inl e
         | Inr ty \<Rightarrow>
             (case ty of
                None \<Rightarrow> Inr m
              | Some t \<Rightarrow> if truthy t then Inr (map_note m t (fname @ '': '' @ name)) else Inr m)))"

definition securitySchemes_of :: "OpenAPISpec \<Rightarrow> json option" where
  "securitySchemes_of s = opt_chain (map_of (spec s) ''components'') ''securitySchemes''"

definition auth_step :: "auth_map \<Rightarrow> OpenAPISpec \<Rightarrow> error + auth_map" where
  "auth_step m s =
     (case securitySchemes_of s of
        None \<Rightarrow> Inr m
      | Some v \<Rightarrow>
          if truthy v then
            (case js_entries v of
               Inl e \<Rightarrow> Inl e
             | Inr schemes \<Rightarrow> for_each (scheme_step (filename s)) schemes m)
          else Inr m)"

text \<open>
  \<^verbatim>\<open>Object.fromEntries(m)\<close>: every key becomes a property key, a string, and a key
  that cannot be converted makes it throw.
\<close>

definition entry_step ::
  "(string \<times> string list) list \<Rightarrow> json \<times> string list \<Rightarrow> error + (string \<times> string list) list" where
  "entry_step obj e =
     (case js_to_string (fst e) of Inl x \<Rightarrow> Inl x | Inr k \<Rightarrow> Inr (set_prop obj k (snd e)))"

definition fromEntries :: "auth_map \<Rightarrow> error + (string \<times> string list) list" where
  "fromEntries m = for_each entry_step m []"

definition findInconsistencies :: "OpenAPISpec list \<Rightarrow> error + Inconsistency list" where
  "findInconsistencies specs =
     (case for_each auth_step specs [] of
        Inl e \<Rightarrow> Inl e
      | Inr authSchemes \<Rightarrow>
          if length authSchemes > 1 then
            (case fromEntries authSchemes of
               Inl e \<Rightarrow> Inl e
             | Inr details \<Rightarrow>
                 Inr [\<lparr> i_type = ''authentication'',
                        i_message = ''Multiple authentication schemes found across APIs'',
                        i_details = details \<rparr>])
          else Inr [])"

section \<open>compareSchemas\<close>

record SchemaComparison =
  c_filename :: string
  c_api :: "string option"
  c_schemaName :: string
  c_schema :: jsvalue

definition schemas_of :: "OpenAPISpec \<Rightarrow> json option" where
  "schemas_of s = (case components s of None \<Rightarrow> None | Some c \<Rightarrow> map_of c ''schemas'')"

definition compare_name ::
  "OpenAPISpec \<Rightarrow> json \<Rightarrow> SchemaComparison list \<Rightarrow> string \<Rightarrow> SchemaComparison list" where
  "compare_name s sch schemas schemaName =
     (case js_index sch schemaName of
        None \<Rightarrow> schemas
      | Some v \<Rightarrow>
          if value_truthy v then
            schemas @ [\<lparr> c_filename = filename s, c_api = info_title s,
                         c_schemaName = schemaName, c_schema = v \<rparr>]
          else schemas)"

definition compare_spec ::
  "string list \<Rightarrow> SchemaComparison list \<Rightarrow> OpenAPISpec \<Rightarrow> SchemaComparison list" where
  "compare_spec schemaNames schemas s =
     (case schemas_of s of
        None \<Rightarrow> schemas
      | Some sch \<Rightarrow> if truthy sch then foldl (compare_name s sch) schemas schemaNames else schemas)"

definition compareSchemas :: "OpenAPISpec list \<Rightarrow> string \<Rightarrow> string \<Rightarrow> SchemaComparison list" where
  "compareSchemas specs schema1Name schema2Name =
     (let schemaNames = (if schema2Name \<noteq> [] then [schema1Name, schema2Name] else [schema1Name])
      in foldl (compare_spec schemaNames) [] specs)"

section \<open>The analyzer and the tool handler\<close>

datatype load_kind = Discovery | Urls | Folder

record LoadSource =
  ls_type :: load_kind
  ls_url :: "string option"
  ls_urls :: "string list option"
  ls_folder :: "string option"
  ls_count :: nat
  ls_metadata :: "json option"

text \<open>The fields of the class; the queries read \<open>an_specs\<close> and \<open>an_loadedSources\<close>.\<close>

record OpenAPIAnalyzer =
  an_specs :: "OpenAPISpec list"
  an_loadedSources :: "LoadSource list"
  an_discoveryUrl :: "string option"
  an_specUrls :: "string list"
  an_specsFolder :: "string option"

text \<open>
  The arguments of a tool call, typed as the tools' input schemas declare them and as the
  handler's casts take them: each one a string, or absent. \<^verbatim>\<open>!s\<close> holds of an absent
  and of an empty string; \<^verbatim>\<open>(args.schema2 as string) || schema1\<close> is \<open>or_default\<close>.
\<close>

record ToolArgs =
  arg_filename :: "string option"
  arg_query :: "string option"
  arg_schema1 :: "string option"
  arg_schema2 :: "string option"

datatype tool =
  List_apis | Get_api_spec | Search_endpoints | Get_api_stats | Find_inconsistencies
  | Compare_schemas | Get_load_sources

datatype payload =
  Summaries "ApiSummary list"
  | Document jsrecord
  | Hits "SearchResult list"
  | Stats ApiStats
  | Inconsistencies "Inconsistency list"
  | Comparisons "SchemaComparison list"
  | Sources "LoadSource list"

text \<open>
  The one text of a response: a plain message, the message \<^verbatim>\<open>Error: ...\<close> that the
  handler's \<^verbatim>\<open>catch\<close> makes of an exception, or \<^verbatim>\<open>JSON.stringify(v, null, 2)\<close> of a
  result, kept as the result.
\<close>

datatype response = Text string | Caught error | Pretty payload

definition try_catch :: "('a \<Rightarrow> payload) \<Rightarrow> error + 'a \<Rightarrow> response" where
  "try_catch wrap r = (case r of Inl e \<Rightarrow> Caught e | Inr v \<Rightarrow> Pretty (wrap v))"

text \<open>
  The handler of \<^verbatim>\<open>CallToolRequestSchema\<close> on the query tools
  (\<^verbatim>\<open>load_specs\<close> runs the loader, which is outside this model).
\<close>

definition call_tool :: "OpenAPIAnalyzer \<Rightarrow> tool \<Rightarrow> ToolArgs option \<Rightarrow> response" where
  "call_tool analyzer name args =
     (case args of
        None \<Rightarrow> Text ''Error: No arguments provided''
      | Some a \<Rightarrow>
          (case name of
             List_apis \<Rightarrow> Pretty (Summaries (listAllSpecs (an_specs analyzer)))
           | Get_api_spec \<Rightarrow>
               (case arg_filename a of
                  None \<Rightarrow> Text ''Error: filename parameter is required''
                | Some f \<Rightarrow>
                    if f = [] then Text ''Error: filename parameter is required''
                    else
                      (case getSpecByFilename (an_specs analyzer) f of
                         None \<Rightarrow> Text (''API spec not found: '' @ f)
                       | Some d \<Rightarrow> Pretty (Document d)))
           | Search_endpoints \<Rightarrow>
               (case arg_query a of
                  None \<Rightarrow> Text ''Error: query parameter is required''
                | Some q \<Rightarrow>
                    if q = [] then Text ''Error: query parameter is required''
                    else try_catch Hits (searchEndpoints (an_specs analyzer) q))
           | Get_api_stats \<Rightarrow> try_catch Stats (getApiStats (an_specs analyzer))
           | Find_inconsistencies \<Rightarrow>
               try_catch Inconsistencies (findInconsistencies (an_specs analyzer))
           | Compare_schemas \<Rightarrow>
               (case arg_schema1 a of
                  None \<Rightarrow> Text ''Error: schema1 parameter is required''
                | Some schema1 \<Rightarrow>
                    if schema1 = [] then Text ''Error: schema1 parameter is required''
                    else
                      (let schema2 = or_default (arg_schema2 a) schema1
                       in Pretty (Comparisons (compareSchemas (an_specs analyzer) schema1 schema2))))
           | Get_load_sources \<Rightarrow> Pretty (Sources (an_loadedSources analyzer))))"

section \<open>The queries in the words of the specification\<close>

text \<open>
  What the specification says a query returns, written without the loops. A path item that
  is \<^verbatim>\<open>null\<close> makes \<^verbatim>\<open>Object.entries\<close> and \<^verbatim>\<open>Object.keys\<close> throw; \<open>items_ok\<close>
  says that a spec has none.
\<close>

definition own_entries :: "json \<Rightarrow> jsrecord" where
  "own_entries v = (case js_entries v of Inl e \<Rightarrow> [] | Inr kvs \<Rightarrow> kvs)"

definition own_keys :: "json \<Rightarrow> string list" where
  "own_keys v = map fst (own_entries v)"

definition paths_of :: "OpenAPISpec \<Rightarrow> jsrecord" where
  "paths_of s = (case paths s of None \<Rightarrow> [] | Some ps \<Rightarrow> ps)"

definition item_ok :: "string \<times> json \<Rightarrow> bool" where
  "item_ok pi = (snd pi \<noteq> JNull)"

definition items_ok :: "OpenAPISpec \<Rightarrow> bool" where
  "items_ok s = (case paths s of None \<Rightarrow> True | Some ps \<Rightarrow> list_all item_ok ps)"

subsection \<open>Search\<close>

text \<open>
  Two queries are case variants of each other when they have the same length and, place by
  place, the same character or the two cases of one letter.
\<close>

definition swap_case :: "char \<Rightarrow> char" where
  "swap_case c = (if c \<in> set upper_letters then lower_char c else upper_char c)"

definition same_letter :: "char \<Rightarrow> char \<Rightarrow> bool" where
  "same_letter a b = (a = b \<or> swap_case a = b)"

definition case_variant :: "string \<Rightarrow> string \<Rightarrow> bool" where
  "case_variant q1 q2 = list_all2 same_letter q1 q2"

subsection \<open>Statistics\<close>

definition recognized_verbs :: "string list" where
  "recognized_verbs = [''GET'', ''POST'', ''PUT'', ''DELETE'', ''PATCH'', ''OPTIONS'', ''HEAD'']"

definition recognized :: "string \<Rightarrow> bool" where
  "recognized m = (toUpperCase m \<in> set recognized_verbs)"

definition path_verbs :: "string \<times> json \<Rightarrow> string list" where
  "path_verbs pi = filter recognized (own_keys (snd pi))"

text \<open>The (path, method) pairs of a spec whose method is a recognized verb in any case.\<close>

definition endpoint_pairs :: "OpenAPISpec \<Rightarrow> (string \<times> string) list" where
  "endpoint_pairs s =
     concat (map (\<lambda>pi. map (\<lambda>m. (fst pi, m)) (filter recognized (own_keys (snd pi)))) (paths_of s))"

text \<open>The number of distinct keys of the \<^verbatim>\<open>paths\<close> map, 0 when the map is absent.\<close>

definition distinct_path_count :: "OpenAPISpec \<Rightarrow> nat" where
  "distinct_path_count s = card (set (map fst (paths_of s)))"

definition version_key :: "OpenAPISpec \<Rightarrow> string" where
  "version_key s = or_default (info_version s) ''unknown''"

definition tally :: "(string \<times> nat) list \<Rightarrow> string list \<Rightarrow> (string \<times> nat) list" where
  "tally m ks = foldl increment m ks"

definition bumps :: "(string \<times> counter) list \<Rightarrow> string list \<Rightarrow> (string \<times> counter) list" where
  "bumps m ks = foldl bump m ks"

definition verbs_used :: "OpenAPISpec \<Rightarrow> string list" where
  "verbs_used s = map (\<lambda>pm. toUpperCase (snd pm)) (endpoint_pairs s)"

definition api_entry :: "OpenAPISpec \<Rightarrow> ApiEntry" where
  "api_entry s =
     \<lparr> a_filename = filename s, a_title = info_title s, a_version = info_version s,
       a_endpointCount = length (endpoint_pairs s),
       a_methods = sort (foldl set_add [] (verbs_used s)) \<rparr>"

text \<open>Every path key of every spec, one entry per (spec, path) pair.\<close>

definition all_paths :: "OpenAPISpec list \<Rightarrow> string list" where
  "all_paths specs = concat (map (\<lambda>s. map fst (paths_of s)) specs)"

definition stats_of :: "OpenAPISpec list \<Rightarrow> ApiStats" where
  "stats_of specs =
     \<lparr> totalApis = length specs,
       totalEndpoints = sum_list (map (\<lambda>s. length (endpoint_pairs s)) specs),
       methodCounts = tally [] (concat (map verbs_used specs)),
       commonPaths = bumps [] (map pathPattern (all_paths specs)),
       versions = bumps [] (map version_key specs),
       apis = map api_entry specs \<rparr>"

text \<open>
  A path template: literal text without an opening brace, and parameters
  \<^verbatim>\<open>{name}\<close> whose name is not empty and has no closing brace.
\<close>

datatype segment = Lit string | Param string

fun render :: "segment list \<Rightarrow> string" where
  "render [] = []"
| "render (Lit l # t) = l @ render t"
| "render (Param x # t) = ''{'' @ x @ ''}'' @ render t"

fun segment_ok :: "segment \<Rightarrow> bool" where
  "segment_ok (Lit l) = (CHR ''{'' \<notin> set l)"
| "segment_ok (Param x) = (x \<noteq> [] \<and> CHR ''}'' \<notin> set x)"

fun rename_param :: "segment \<Rightarrow> segment" where
  "rename_param (Lit l) = Lit l"
| "rename_param (Param x) = Param ''id''"

subsection \<open>Schema comparison\<close>

text \<open>
  The records that one spec gives for one schema name: one if its \<^verbatim>\<open>schemas\<close> value
  has a truthy member of that name, own or inherited, else none.
\<close>

definition schema_records :: "OpenAPISpec \<Rightarrow> string \<Rightarrow> SchemaComparison list" where
  "schema_records s n =
     (case schemas_of s of
        None \<Rightarrow> []
      | Some sch \<Rightarrow>
          if truthy sch then
            (case js_index sch n of
               None \<Rightarrow> []
             | Some v \<Rightarrow>
                 if value_truthy v then
                   [\<lparr> c_filename = filename s, c_api = info_title s, c_schemaName = n, c_schema = v \<rparr>]
                 else [])
          else [])"

subsection \<open>Security schemes\<close>

text \<open>
  The entries of \<^verbatim>\<open>components.securitySchemes\<close> of the raw document that the loop
  visits, and what it records of them: the truthy \<^verbatim>\<open>type\<close> of an entry with the
  qualified name \<^verbatim>\<open>filename: name\<close>. Reading \<^verbatim>\<open>type\<close> of an entry that is
  \<^verbatim>\<open>null\<close> throws; \<open>schemes_ok\<close> says that a spec has no such entry.
\<close>

definition schemes_of :: "OpenAPISpec \<Rightarrow> jsrecord" where
  "schemes_of s =
     (case securitySchemes_of s of
        None \<Rightarrow> []
      | Some v \<Rightarrow> if truthy v then own_entries v else [])"

definition schemes_ok :: "OpenAPISpec \<Rightarrow> bool" where
  "schemes_ok s = list_all (\<lambda>ns. snd ns \<noteq> JNull) (schemes_of s)"

definition observed_scheme :: "string \<Rightarrow> string \<times> json \<Rightarrow> (json \<times> string) list" where
  "observed_scheme fname ns =
     (case own_prop (snd ns) ''type'' of
        None \<Rightarrow> []
      | Some t \<Rightarrow> if truthy t then [(t, fname @ '': '' @ fst ns)] else [])"

definition observed_in :: "OpenAPISpec \<Rightarrow> (json \<times> string) list" where
  "observed_in s = concat (map (observed_scheme (filename s)) (schemes_of s))"

definition observed :: "OpenAPISpec list \<Rightarrow> (json \<times> string) list" where
  "observed specs = concat (map observed_in specs)"

fun is_string :: "json \<Rightarrow> bool" where
  "is_string (JStr s) = True"
| "is_string v = False"

text \<open>The scheme types met, and the qualified names of the schemes of one type.\<close>

definition observed_types :: "OpenAPISpec list \<Rightarrow> json set" where
  "observed_types specs = set (map fst (observed specs))"

definition names_of_type :: "OpenAPISpec list \<Rightarrow> json \<Rightarrow> string list" where
  "names_of_type specs t = map snd (filter (\<lambda>ob. fst ob = t) (observed specs))"

definition add_observed :: "auth_map \<Rightarrow> json \<times> string \<Rightarrow> auth_map" where
  "add_observed m ob = map_note m (fst ob) (snd ob)"

text \<open>
  The names a map holds under a key, the object that \<^verbatim>\<open>Object.fromEntries\<close> makes of a
  map whose keys are distinct strings, and the one record that the check reports.
\<close>

definition names_in :: "auth_map \<Rightarrow> json \<Rightarrow> string list" where
  "names_in m k = (case map_of m k of None \<Rightarrow> [] | Some xs \<Rightarrow> xs)"

fun string_of :: "json \<Rightarrow> string" where
  "string_of (JStr s) = s"
| "string_of v = []"

definition printed :: "auth_map \<Rightarrow> (string \<times> string list) list" where
  "printed m = map (\<lambda>e. (string_of (fst e), snd e)) m"

definition auth_record :: "(string \<times> string list) list \<Rightarrow> Inconsistency" where
  "auth_record d =
     \<lparr> i_type = ''authentication'',
       i_message = ''Multiple authentication schemes found across APIs'',
       i_details = d \<rparr>"

subsection \<open>The state of the loops of getApiStats after a list of items\<close>

definition scan_methods :: "scan \<Rightarrow> string list \<Rightarrow> scan" where
  "scan_methods sc ms =
     sc\<lparr> endpointCount := endpointCount sc + length ms,
         apiMethods := foldl set_add (apiMethods sc) (map toUpperCase ms),
         stats := (stats sc)\<lparr> methodCounts := tally (methodCounts (stats sc)) (map toUpperCase ms) \<rparr> \<rparr>"

definition scan_path :: "scan \<Rightarrow> string \<times> json \<Rightarrow> scan" where
  "scan_path sc pi =
     (let sc' = scan_methods sc (filter recognized (own_keys (snd pi)))
      in sc'\<lparr> stats := (stats sc')\<lparr> commonPaths :=
                 bump (commonPaths (stats sc')) (pathPattern (fst pi)) \<rparr> \<rparr>)"

definition scan_paths :: "scan \<Rightarrow> jsrecord \<Rightarrow> scan" where
  "scan_paths sc ps =
     sc\<lparr> endpointCount := endpointCount sc + length (concat (map path_verbs ps)),
         apiMethods := foldl set_add (apiMethods sc) (map toUpperCase (concat (map path_verbs ps))),
         stats := (stats sc)\<lparr>
           methodCounts := tally (methodCounts (stats sc)) (map toUpperCase (concat (map path_verbs ps))),
           commonPaths := bumps (commonPaths (stats sc)) (map (\<lambda>pi. pathPattern (fst pi)) ps) \<rparr> \<rparr>"

definition add_specs :: "ApiStats \<Rightarrow> OpenAPISpec list \<Rightarrow> ApiStats" where
  "add_specs st xs =
     st\<lparr> totalEndpoints := totalEndpoints st + sum_list (map (\<lambda>s. length (endpoint_pairs s)) xs),
         methodCounts := tally (methodCounts st) (concat (map verbs_used xs)),
         commonPaths := bumps (commonPaths st) (map pathPattern (all_paths xs)),
         versions := bumps (versions st) (map version_key xs),
         apis := apis st @ map api_entry xs \<rparr>"

section \<open>The query methods on a store of objects\<close>

text \<open>
  Whether a method changes the registry is a question about objects that are shared: the
  analyzer, its array of specs, the entries of that array and the nodes of the documents,
  which the results of \<^verbatim>\<open>getSpecByFilename\<close>, \<^verbatim>\<open>searchEndpoints\<close> and
  \<^verbatim>\<open>compareSchemas\<close> point into. In this second embedding of the seven query methods
  every object has an address, a value is a primitive or a reference, a read follows a
  reference into the store, and every \<^verbatim>\<open>push\<close>, \<^verbatim>\<open>add\<close>, \<^verbatim>\<open>set\<close> and
  assignment of the source is a write to the object that its target expression evaluates
  to.

  The store has two parts: the objects that exist when a method is called, and the objects
  that the call makes. A call starts with no objects of its own: what an earlier call made
  can be reached neither from \<^verbatim>\<open>this\<close> nor from the arguments, which are strings.

  Limits of this embedding: the objects that exist before a call are plain objects and
  arrays, as a parser and the loader make them (a \<^verbatim>\<open>Map\<close> or a \<^verbatim>\<open>Set\<close> among them
  would be read as an object without properties that cannot be iterated); an array that
  \<^verbatim>\<open>Object.entries\<close>, \<^verbatim>\<open>Object.keys\<close> or an array literal makes for a loop or a
  \<^verbatim>\<open>join\<close> to read at once is a list of the model, not an object of the store.
\<close>

datatype ref = Old nat | New nat

text \<open>
  A value: \<^verbatim>\<open>undefined\<close>, \<^verbatim>\<open>null\<close>, a boolean, a number (as the string that
  \<^verbatim>\<open>String(n)\<close> gives of it), a string, a reference to an object, or a member that a
  value inherits from a prototype, by its name.
\<close>

datatype val =
  VUndef
  | VNull
  | VBool bool
  | VNum string
  | VStr string
  | VRef ref
  | VBuiltin string

text \<open>
  An object: a plain object with its own properties in order, an array, a \<^verbatim>\<open>Map\<close>, a
  \<^verbatim>\<open>Set\<close> of strings, or one of the three counter objects of \<^verbatim>\<open>getApiStats\<close>,
  which start as \<^verbatim>\<open>{}\<close> and are written by \<^verbatim>\<open>m[k] = (m[k] || 0) + 1\<close> only.
\<close>

datatype obj =
  OObj "(string \<times> val) list"
  | OArr "val list"
  | OMap "(val \<times> val) list"
  | OSet "string list"
  | OCounts "(string \<times> counter) list"

record store =
  st_old :: "obj list"
  st_new :: "obj list"

definition obj_at :: "store \<Rightarrow> ref \<Rightarrow> obj option" where
  "obj_at st r =
     (case r of
        Old a \<Rightarrow> if a < length (st_old st) then Some (st_old st ! a) else None
      | New a \<Rightarrow> if a < length (st_new st) then Some (st_new st ! a) else None)"

definition put_obj :: "store \<Rightarrow> ref \<Rightarrow> obj \<Rightarrow> store" where
  "put_obj st r ob =
     (case r of
        Old a \<Rightarrow> st\<lparr> st_old := (st_old st)[a := ob] \<rparr>
      | New a \<Rightarrow> st\<lparr> st_new := (st_new st)[a := ob] \<rparr>)"

subsection \<open>Statements\<close>

text \<open>
  A statement or an expression of a method body: from a store it gets to a value or an
  exception and a store, or it does not return.
\<close>

type_synonym 'a prog = "store \<Rightarrow> ((error + 'a) \<times> store) option"

definition ret :: "'a \<Rightarrow> 'a prog" where
  "ret x st = Some (Inr x, st)"

definition throw_p :: "'a prog" where
  "throw_p st = Some (Inl TypeError, st)"

definition bind_p :: "'a prog \<Rightarrow> ('a \<Rightarrow> 'b prog) \<Rightarrow> 'b prog" where
  "bind_p p f st =
     (case p st of
        None \<Rightarrow> None
      | Some (r, st') \<Rightarrow> (case r of Inl e \<Rightarrow> Some (Inl e, st') | Inr x \<Rightarrow> f x st'))"

text \<open>An expression that reads the store and leaves it as it is.\<close>

definition reading :: "(store \<Rightarrow> error + 'a) \<Rightarrow> 'a prog" where
  "reading f st = Some (f st, st)"

text \<open>An object or array literal, \<^verbatim>\<open>new Map()\<close>, \<^verbatim>\<open>new Set()\<close>: a new object.\<close>

definition make :: "obj \<Rightarrow> val prog" where
  "make ob st = Some (Inr (VRef (New (length (st_new st)))), st\<lparr> st_new := st_new st @ [ob] \<rparr>)"

text \<open>
  A \<^verbatim>\<open>for\<close> loop over the elements of a list that nothing else can reach (the array
  that \<^verbatim>\<open>Object.entries\<close> or \<^verbatim>\<open>Object.keys\<close> has just made, an array literal), without
  and with a local variable that the body assigns to.
\<close>

fun for_each_p :: "('a \<Rightarrow> unit prog) \<Rightarrow> 'a list \<Rightarrow> unit prog" where
  "for_each_p body [] = ret ()"
| "for_each_p body (x # xs) = bind_p (body x) (\<lambda>u. for_each_p body xs)"

fun fold_p :: "('s \<Rightarrow> 'a \<Rightarrow> 's prog) \<Rightarrow> 'a list \<Rightarrow> 's \<Rightarrow> 's prog" where
  "fold_p body [] s = ret s"
| "fold_p body (x # xs) s = bind_p (body s x) (\<lambda>s'. fold_p body xs s')"

subsection \<open>Reads\<close>

fun truthy_val :: "val \<Rightarrow> bool" where
  "truthy_val VUndef = False"
| "truthy_val VNull = False"
| "truthy_val (VBool b) = b"
| "truthy_val (VNum n) = (n \<noteq> ''0'' \<and> n \<noteq> ''NaN'')"
| "truthy_val (VStr s) = (s \<noteq> [])"
| "truthy_val (VRef r) = True"
| "truthy_val (VBuiltin k) = True"

text \<open>\<^verbatim>\<open>v || d\<close>.\<close>

definition or_val :: "val \<Rightarrow> val \<Rightarrow> val" where
  "or_val v d = (if truthy_val v then v else d)"

text \<open>\<^verbatim>\<open>typeof v === 'object' && v !== null\<close>.\<close>

fun is_object_val :: "val \<Rightarrow> bool" where
  "is_object_val (VRef r) = True"
| "is_object_val (VBuiltin k) = (k = ''__proto__'')"
| "is_object_val v = False"

fun counter_val :: "counter \<Rightarrow> val" where
  "counter_val (CNum n) = VNum (show_nat n)"
| "counter_val (CStr s) = VStr s"

text \<open>The own properties of an object, and the names of the members it inherits.\<close>

fun obj_entries :: "obj \<Rightarrow> (string \<times> val) list" where
  "obj_entries (OObj kvs) = kvs"
| "obj_entries (OArr xs) = indexed xs"
| "obj_entries (OMap es) = []"
| "obj_entries (OSet xs) = []"
| "obj_entries (OCounts m) = map (\<lambda>e. (fst e, counter_val (snd e))) m"

fun obj_own :: "obj \<Rightarrow> string \<Rightarrow> val option" where
  "obj_own (OArr xs) k =
     (if k = ''length'' then Some (VNum (show_nat (length xs))) else map_of (indexed xs) k)"
| "obj_own ob k = map_of (obj_entries ob) k"

fun obj_inherited :: "obj \<Rightarrow> string list" where
  "obj_inherited (OArr xs) = array_prototype_names @ object_prototype_names"
| "obj_inherited ob = object_prototype_names"

text \<open>
  \<^verbatim>\<open>v.k\<close> and \<^verbatim>\<open>v[k]\<close>: the own property, else the inherited member, else
  \<^verbatim>\<open>undefined\<close>; of \<^verbatim>\<open>undefined\<close> and \<^verbatim>\<open>null\<close> the read throws. (A reference to
  no object, which JavaScript does not have, is read as \<^verbatim>\<open>null\<close> is. A member of a
  built-in function, and a member that a \<^verbatim>\<open>Map\<close> or a \<^verbatim>\<open>Set\<close> has beyond those of
  \<^verbatim>\<open>Object.prototype\<close>, is read by no method and is not modelled.)
\<close>

fun read_prop :: "store \<Rightarrow> val \<Rightarrow> string \<Rightarrow> error + val" where
  "read_prop st VUndef k = Inl TypeError"
| "read_prop st VNull k = Inl TypeError"
| "read_prop st (VBool b) k =
     Inr (if k \<in> set object_prototype_names then VBuiltin k else VUndef)"
| "read_prop st (VNum n) k =
     Inr (if k \<in> set (number_prototype_names @ object_prototype_names) then VBuiltin k
          else VUndef)"
| "read_prop st (VStr s) k =
     Inr (if k = ''length'' then VNum (show_nat (length s))
          else (case map_of (indexed (map (\<lambda>c. VStr [c]) s)) k of
                  Some v \<Rightarrow> v
                | None \<Rightarrow>
                    if k \<in> set (string_prototype_names @ object_prototype_names)
                    then VBuiltin k else VUndef))"
| "read_prop st (VBuiltin f) k = Inr VUndef"
| "read_prop st (VRef r) k =
     (case obj_at st r of
        None \<Rightarrow> Inl TypeError
      | Some ob \<Rightarrow>
          (case obj_own ob k of
             Some v \<Rightarrow> Inr v
           | None \<Rightarrow> Inr (if k \<in> set (obj_inherited ob) then VBuiltin k else VUndef)))"

definition get_p :: "val \<Rightarrow> string \<Rightarrow> val prog" where
  "get_p v k = reading (\<lambda>st. read_prop st v k)"

text \<open>\<^verbatim>\<open>v?.k\<close>.\<close>

definition opt_get_p :: "val \<Rightarrow> string \<Rightarrow> val prog" where
  "opt_get_p v k = (if v = VUndef \<or> v = VNull then ret VUndef else get_p v k)"

text \<open>\<^verbatim>\<open>Object.entries(v)\<close> and \<^verbatim>\<open>Object.keys(v)\<close>, as the list that the loop reads.\<close>

fun entries_in :: "store \<Rightarrow> val \<Rightarrow> error + (string \<times> val) list" where
  "entries_in st VUndef = Inl TypeError"
| "entries_in st VNull = Inl TypeError"
| "entries_in st (VStr s) = Inr (indexed (map (\<lambda>c. VStr [c]) s))"
| "entries_in st (VRef r) =
     (case obj_at st r of None \<Rightarrow> Inl TypeError | Some ob \<Rightarrow> Inr (obj_entries ob))"
| "entries_in st v = Inr []"

definition entries_p :: "val \<Rightarrow> (string \<times> val) list prog" where
  "entries_p v = reading (\<lambda>st. entries_in st v)"

definition keys_p :: "val \<Rightarrow> string list prog" where
  "keys_p v = bind_p (entries_p v) (\<lambda>kvs. ret (map fst kvs))"

text \<open>The element \<open>i\<close> of an array as a method of \<^verbatim>\<open>Array.prototype\<close> reads it.\<close>

definition elem_at :: "ref \<Rightarrow> nat \<Rightarrow> store \<Rightarrow> val option" where
  "elem_at r i st =
     (case obj_at st r of
        Some (OArr xs) \<Rightarrow> if i < length xs then Some (xs ! i) else None
      | _ \<Rightarrow> None)"

text \<open>
  \<^verbatim>\<open>String(v)\<close>, which \<^verbatim>\<open>join\<close>, a template literal and a property key apply. An array
  prints its elements, \<^verbatim>\<open>null\<close> and \<^verbatim>\<open>undefined\<close> as the empty string, and an array
  that is printing already prints as the empty string. The valid references that are
  not yet being printed get fewer with every array entered.
\<close>

definition valid_refs :: "store \<Rightarrow> ref set" where
  "valid_refs st = Old ` {..<length (st_old st)} \<union> New ` {..<length (st_new st)}"

lemma finite_valid_refs: "finite (valid_refs st)"
  by (simp add: valid_refs_def)

lemma obj_at_valid: "obj_at st r = Some ob \<Longrightarrow> r \<in> valid_refs st"
  by (cases r) (auto simp: obj_at_def valid_refs_def split: if_splits)

function text_seen :: "ref list \<Rightarrow> store \<Rightarrow> val \<Rightarrow> error + string" where
  "text_seen seen st VUndef = Inr ''undefined''"
| "text_seen seen st VNull = Inr ''null''"
| "text_seen seen st (VBool b) = Inr (if b then ''true'' else ''false'')"
| "text_seen seen st (VNum n) = Inr n"
| "text_seen seen st (VStr s) = Inr s"
| "text_seen seen st (VBuiltin k) = Inr (inherited_text k)"
| "text_seen seen st (VRef r) =
     (case obj_at st r of
        None \<Rightarrow> Inl TypeError
      | Some ob \<Rightarrow>
          (case ob of
             OArr xs \<Rightarrow>
               if r \<in> set seen then Inr []
               else
                 (case sequence
                    (map (\<lambda>x. if x = VNull \<or> x = VUndef then Inr []
                               else text_seen (r # seen) st x) xs) of
                    Inl e \<Rightarrow> Inl e
                  | Inr ss \<Rightarrow> Inr (js_join '','' ss))
           | OMap es \<Rightarrow> Inr ''[object Map]''
           | OSet xs \<Rightarrow> Inr ''[object Set]''
           | _ \<Rightarrow>
               if ''toString'' \<in> set (map fst (obj_entries ob)) then Inl TypeError
               else Inr ''[object Object]''))"
  by pat_completeness auto
termination
proof (relation "measure (\<lambda>(seen, st, v). card (valid_refs st - set seen))")
  show "wf (measure (\<lambda>(seen, st, v). card (valid_refs st - set seen)))" by simp
next
  fix seen :: "ref list" and st r ob xs x
  assume a: "obj_at st r = Some ob" and n: "r \<notin> set seen"
  from a have v: "r \<in> valid_refs st" by (rule obj_at_valid)
  have "valid_refs st - set (r # seen) \<subset> valid_refs st - set seen"
    using v n by auto
  then have "card (valid_refs st - set (r # seen)) < card (valid_refs st - set seen)"
    by (rule psubset_card_mono [rotated]) (simp add: finite_valid_refs)
  then show "((r # seen, st, x), (seen, st, VRef r))
      \<in> measure (\<lambda>(seen, st, v). card (valid_refs st - set seen))"
    by simp
qed

definition text_p :: "val \<Rightarrow> string prog" where
  "text_p v = reading (\<lambda>st. text_seen [] st v)"

text \<open>\<^verbatim>\<open>[v1, ..., vn].join(sep)\<close>.\<close>

definition join_p :: "string \<Rightarrow> val list \<Rightarrow> string prog" where
  "join_p sep vs =
     reading (\<lambda>st.
       case sequence (map (\<lambda>x. if x = VNull \<or> x = VUndef then Inr [] else text_seen [] st x) vs) of
         Inl e \<Rightarrow> Inl e
       | Inr ss \<Rightarrow> Inr (js_join sep ss))"

subsection \<open>Writes\<close>

text \<open>
  Every write goes to the object that its target evaluates to, wherever that object is.
  A target that is no object, or one that has no such method, makes the call throw.
\<close>

text \<open>\<^verbatim>\<open>target.push(x)\<close>.\<close>

definition array_push :: "val \<Rightarrow> val \<Rightarrow> unit prog" where
  "array_push target x st =
     (case target of
        VRef r \<Rightarrow>
          (case obj_at st r of
             Some (OArr xs) \<Rightarrow> Some (Inr (), put_obj st r (OArr (xs @ [x])))
           | _ \<Rightarrow> Some (Inl TypeError, st))
      | _ \<Rightarrow> Some (Inl TypeError, st))"

text \<open>\<^verbatim>\<open>target[k] = (target[k] || 0) + 1\<close> on a counter object.\<close>

definition increment_at :: "val \<Rightarrow> string \<Rightarrow> unit prog" where
  "increment_at target k st =
     (case target of
        VRef r \<Rightarrow>
          (case obj_at st r of
             Some (OCounts m) \<Rightarrow> Some (Inr (), put_obj st r (OCounts (bump m k)))
           | _ \<Rightarrow> Some (Inl TypeError, st))
      | _ \<Rightarrow> Some (Inl TypeError, st))"

text \<open>
  \<^verbatim>\<open>target.k += n\<close> on a property that holds a count, for a count \<open>n\<close> of the method.
\<close>

definition digit_value :: "char \<Rightarrow> nat" where
  "digit_value c = (case map_of (zip ''0123456789'' [0..<10]) c of None \<Rightarrow> 0 | Some d \<Rightarrow> d)"

definition read_nat :: "string \<Rightarrow> nat" where
  "read_nat s = foldl (\<lambda>n c. 10 * n + digit_value c) 0 s"

definition add_to_field :: "val \<Rightarrow> string \<Rightarrow> nat \<Rightarrow> unit prog" where
  "add_to_field target k n st =
     (case target of
        VRef r \<Rightarrow>
          (case obj_at st r of
             Some (OObj kvs) \<Rightarrow>
               (case map_of kvs k of
                  Some (VNum s) \<Rightarrow>
                    Some (Inr (), put_obj st r (OObj (set_prop kvs k (VNum (show_nat (read_nat s + n))))))
                | _ \<Rightarrow> Some (Inl TypeError, st))
           | _ \<Rightarrow> Some (Inl TypeError, st))
      | _ \<Rightarrow> Some (Inl TypeError, st))"

text \<open>\<^verbatim>\<open>target.add(x)\<close> on a set, and \<^verbatim>\<open>Array.from(target).sort()\<close>.\<close>

definition set_add_p :: "val \<Rightarrow> string \<Rightarrow> unit prog" where
  "set_add_p target x st =
     (case target of
        VRef r \<Rightarrow>
          (case obj_at st r of
             Some (OSet xs) \<Rightarrow> Some (Inr (), put_obj st r (OSet (set_add xs x)))
           | _ \<Rightarrow> Some (Inl TypeError, st))
      | _ \<Rightarrow> Some (Inl TypeError, st))"

definition set_members :: "val \<Rightarrow> store \<Rightarrow> error + string list" where
  "set_members target st =
     (case target of
        VRef r \<Rightarrow> (case obj_at st r of Some (OSet xs) \<Rightarrow> Inr xs | _ \<Rightarrow> Inl TypeError)
      | _ \<Rightarrow> Inl TypeError)"

definition sorted_array_p :: "val \<Rightarrow> val prog" where
  "sorted_array_p target =
     bind_p (reading (set_members target)) (\<lambda>xs. make (OArr (map VStr (sort xs))))"

text \<open>
  \<^verbatim>\<open>target.has(k)\<close>, \<^verbatim>\<open>target.get(k)\<close>, \<^verbatim>\<open>target.set(k, v)\<close> and \<^verbatim>\<open>target.size\<close> on a
  map. Keys are compared as values are: strings, numbers and booleans by what they are,
  references by their address.
\<close>

definition map_entries :: "val \<Rightarrow> store \<Rightarrow> error + (val \<times> val) list" where
  "map_entries target st =
     (case target of
        VRef r \<Rightarrow> (case obj_at st r of Some (OMap es) \<Rightarrow> Inr es | _ \<Rightarrow> Inl TypeError)
      | _ \<Rightarrow> Inl TypeError)"

definition map_has_p :: "val \<Rightarrow> val \<Rightarrow> bool prog" where
  "map_has_p target k = bind_p (reading (map_entries target)) (\<lambda>es. ret (k \<in> set (map fst es)))"

definition map_get_p :: "val \<Rightarrow> val \<Rightarrow> val prog" where
  "map_get_p target k =
     bind_p (reading (map_entries target))
       (\<lambda>es. ret (case map_of es k of None \<Rightarrow> VUndef | Some v \<Rightarrow> v))"

definition map_size_p :: "val \<Rightarrow> nat prog" where
  "map_size_p target = bind_p (reading (map_entries target)) (\<lambda>es. ret (length es))"

fun set_entry :: "(val \<times> val) list \<Rightarrow> val \<Rightarrow> val \<Rightarrow> (val \<times> val) list" where
  "set_entry [] k v = [(k, v)]"
| "set_entry ((k', v') # es) k v = (if k' = k then (k, v) # es else (k', v') # set_entry es k v)"

definition map_set_p :: "val \<Rightarrow> val \<Rightarrow> val \<Rightarrow> unit prog" where
  "map_set_p target k v st =
     (case target of
        VRef r \<Rightarrow>
          (case obj_at st r of
             Some (OMap es) \<Rightarrow> Some (Inr (), put_obj st r (OMap (set_entry es k v)))
           | _ \<Rightarrow> Some (Inl TypeError, st))
      | _ \<Rightarrow> Some (Inl TypeError, st))"

text \<open>\<^verbatim>\<open>Object.fromEntries(target)\<close> of a map: a new object, every key as a string.\<close>

definition entry_p :: "(string \<times> val) list \<Rightarrow> val \<times> val \<Rightarrow> (string \<times> val) list prog" where
  "entry_p kvs e = bind_p (text_p (fst e)) (\<lambda>k. ret (set_prop kvs k (snd e)))"

definition from_entries_p :: "val \<Rightarrow> val prog" where
  "from_entries_p target =
     bind_p (reading (map_entries target)) (\<lambda>es.
     bind_p (fold_p entry_p es []) (\<lambda>kvs.
     make (OObj kvs)))"

subsection \<open>A loop over an array of the store\<close>

text \<open>
  \<^verbatim>\<open>for (const x of v)\<close> where \<open>v\<close> is an array: before every round the iterator
  reads the length of the array as it then is, so a body that makes the array longer makes
  the loop longer. A string gives its characters; \<^verbatim>\<open>undefined\<close>, \<^verbatim>\<open>null\<close>, a number,
  a boolean and a plain object cannot be iterated.
\<close>

partial_function (option) for_of_from ::
  "ref \<Rightarrow> (val \<Rightarrow> unit prog) \<Rightarrow> nat \<Rightarrow> store \<Rightarrow> ((error + unit) \<times> store) option" where
  "for_of_from r body i st =
     (case elem_at r i st of
        None \<Rightarrow> Some (Inr (), st)
      | Some x \<Rightarrow>
          (case body x st of
             None \<Rightarrow> None
           | Some (res, st') \<Rightarrow>
               (case res of
                  Inl e \<Rightarrow> Some (Inl e, st')
                | Inr u \<Rightarrow> for_of_from r body (i + 1) st')))"

declare for_of_from.simps [code]

definition for_of :: "val \<Rightarrow> (val \<Rightarrow> unit prog) \<Rightarrow> unit prog" where
  "for_of v body st =
     (case v of
        VRef r \<Rightarrow>
          (case obj_at st r of
             Some (OArr xs) \<Rightarrow> for_of_from r body 0 st
           | _ \<Rightarrow> Some (Inl TypeError, st))
      | VStr s \<Rightarrow> for_each_p body (map (\<lambda>c. VStr [c]) s) st
      | _ \<Rightarrow> Some (Inl TypeError, st))"

text \<open>
  \<^verbatim>\<open>v.map(f)\<close> and \<^verbatim>\<open>v.find(f)\<close> of an array: the length is read once, the elements
  as the rounds come; \<^verbatim>\<open>map\<close> fills a new array.
\<close>

definition array_length :: "val \<Rightarrow> store \<Rightarrow> error + nat" where
  "array_length v st =
     (case v of
        VRef r \<Rightarrow> (case obj_at st r of Some (OArr xs) \<Rightarrow> Inr (length xs) | _ \<Rightarrow> Inl TypeError)
      | _ \<Rightarrow> Inl TypeError)"

definition element :: "val \<Rightarrow> nat \<Rightarrow> store \<Rightarrow> error + val option" where
  "element v i st = (case v of VRef r \<Rightarrow> Inr (elem_at r i st) | _ \<Rightarrow> Inr None)"

definition map_round :: "val \<Rightarrow> (val \<Rightarrow> val prog) \<Rightarrow> val \<Rightarrow> nat \<Rightarrow> unit prog" where
  "map_round v f result i =
     bind_p (reading (element v i)) (\<lambda>x.
       case x of
         None \<Rightarrow> ret ()
       | Some y \<Rightarrow> bind_p (f y) (\<lambda>z. array_push result z))"

definition array_map :: "val \<Rightarrow> (val \<Rightarrow> val prog) \<Rightarrow> val prog" where
  "array_map v f =
     bind_p (reading (array_length v)) (\<lambda>len.
     bind_p (make (OArr [])) (\<lambda>result.
     bind_p (for_each_p (map_round v f result) [0..<len]) (\<lambda>u.
     ret result)))"

fun find_rounds :: "val \<Rightarrow> (val \<Rightarrow> bool prog) \<Rightarrow> nat list \<Rightarrow> val prog" where
  "find_rounds v f [] = ret VUndef"
| "find_rounds v f (i # rest) =
     bind_p (reading (element v i)) (\<lambda>x.
       let y = (case x of None \<Rightarrow> VUndef | Some y \<Rightarrow> y)
       in bind_p (f y) (\<lambda>b. if b then ret y else find_rounds v f rest))"

definition array_find :: "val \<Rightarrow> (val \<Rightarrow> bool prog) \<Rightarrow> val prog" where
  "array_find v f =
     bind_p (reading (array_length v)) (\<lambda>len. find_rounds v f [0..<len])"

subsection \<open>The methods\<close>

text \<open>\<^verbatim>\<open>listAllSpecs\<close>: the arrow function, then the method.\<close>

definition summary_s :: "val \<Rightarrow> val prog" where
  "summary_s spec_v =
     bind_p (get_p spec_v ''filename'') (\<lambda>filename_v.
     bind_p (get_p spec_v ''info'') (\<lambda>info1.
     bind_p (opt_get_p info1 ''title'') (\<lambda>title_v.
     bind_p (get_p spec_v ''info'') (\<lambda>info2.
     bind_p (opt_get_p info2 ''version'') (\<lambda>version_v.
     bind_p (get_p spec_v ''info'') (\<lambda>info3.
     bind_p (opt_get_p info3 ''description'') (\<lambda>description_v.
     bind_p (get_p spec_v ''paths'') (\<lambda>paths1.
     bind_p (if truthy_val paths1
             then bind_p (get_p spec_v ''paths'') (\<lambda>paths2.
                  bind_p (keys_p paths2) (\<lambda>ks. ret (length ks)))
             else ret 0) (\<lambda>endpointCount_v.
     make (OObj [(''filename'', filename_v),
                 (''title'', or_val title_v (VStr ''No title'')),
                 (''version'', or_val version_v (VStr ''No version'')),
                 (''description'', or_val description_v (VStr ''No description'')),
                 (''endpointCount'', VNum (show_nat endpointCount_v))]))))))))))"

definition listAllSpecs_s :: "val \<Rightarrow> val prog" where
  "listAllSpecs_s this = bind_p (get_p this ''specs'') (\<lambda>specs. array_map specs summary_s)"

text \<open>\<^verbatim>\<open>getLoadedSources\<close> and \<^verbatim>\<open>getSpecByFilename\<close>.\<close>

definition getLoadedSources_s :: "val \<Rightarrow> val prog" where
  "getLoadedSources_s this = get_p this ''loadedSources''"

definition getSpecByFilename_s :: "val \<Rightarrow> string \<Rightarrow> val prog" where
  "getSpecByFilename_s this filename_v =
     bind_p (get_p this ''specs'') (\<lambda>specs.
     bind_p (array_find specs
               (\<lambda>s. bind_p (get_p s ''filename'') (\<lambda>f. ret (f = VStr filename_v)))) (\<lambda>spec_v.
     if truthy_val spec_v then get_p spec_v ''spec'' else ret VNull))"

text \<open>\<^verbatim>\<open>searchEndpoints\<close>, from the innermost loop body outwards.\<close>

definition search_operation_s ::
  "string \<Rightarrow> val \<Rightarrow> val \<Rightarrow> string \<Rightarrow> string \<times> val \<Rightarrow> unit prog" where
  "search_operation_s lowerQuery results spec_v path mo =
     (case mo of (method, operation) \<Rightarrow>
        if \<not> is_object_val operation then ret ()
        else
          bind_p (get_p operation ''summary'') (\<lambda>summary1.
          bind_p (get_p operation ''description'') (\<lambda>description1.
          bind_p (get_p operation ''operationId'') (\<lambda>operationId1.
          bind_p (join_p '' '' [VStr path, VStr method,
                    or_val summary1 (VStr []), or_val description1 (VStr []),
                    or_val operationId1 (VStr [])]) (\<lambda>joined.
          if js_includes (toLowerCase joined) lowerQuery then
            bind_p (get_p spec_v ''filename'') (\<lambda>filename_v.
            bind_p (get_p spec_v ''info'') (\<lambda>info1.
            bind_p (opt_get_p info1 ''title'') (\<lambda>api_title.
            bind_p (get_p operation ''summary'') (\<lambda>summary2.
            bind_p (get_p operation ''description'') (\<lambda>description2.
            bind_p (get_p operation ''operationId'') (\<lambda>operationId2.
            bind_p (make (OObj [(''filename'', filename_v),
                                (''api_title'', api_title),
                                (''path'', VStr path),
                                (''method'', VStr (toUpperCase method)),
                                (''summary'', summary2),
                                (''description'', description2),
                                (''operationId'', operationId2)])) (\<lambda>hit.
            array_push results hit)))))))
          else ret ())))))"

definition search_path_s :: "string \<Rightarrow> val \<Rightarrow> val \<Rightarrow> string \<times> val \<Rightarrow> unit prog" where
  "search_path_s lowerQuery results spec_v pi =
     (case pi of (path, pathItem) \<Rightarrow>
        bind_p (entries_p pathItem) (\<lambda>ops.
        for_each_p (search_operation_s lowerQuery results spec_v path) ops))"

definition search_spec_s :: "string \<Rightarrow> val \<Rightarrow> val \<Rightarrow> unit prog" where
  "search_spec_s lowerQuery results spec_v =
     bind_p (get_p spec_v ''paths'') (\<lambda>paths1.
     if \<not> truthy_val paths1 then ret ()
     else
       bind_p (get_p spec_v ''paths'') (\<lambda>paths2.
       bind_p (entries_p paths2) (\<lambda>items.
       for_each_p (search_path_s lowerQuery results spec_v) items)))"

definition searchEndpoints_s :: "val \<Rightarrow> string \<Rightarrow> val prog" where
  "searchEndpoints_s this query =
     bind_p (make (OArr [])) (\<lambda>results.
     bind_p (get_p this ''specs'') (\<lambda>specs.
     bind_p (for_of specs (search_spec_s (toLowerCase query) results)) (\<lambda>u.
     ret results)))"

text \<open>
  \<^verbatim>\<open>getApiStats\<close>. \<^verbatim>\<open>endpointCount\<close> is the local variable of the loops;
  \<^verbatim>\<open>httpMethods\<close> is a constant.
\<close>

definition stats_method_s :: "val \<Rightarrow> val \<Rightarrow> nat \<Rightarrow> string \<Rightarrow> nat prog" where
  "stats_method_s stats_v apiMethods_v endpointCount_v method =
     (if toLowerCase method \<in> set httpMethods then
        bind_p (set_add_p apiMethods_v (toUpperCase method)) (\<lambda>u.
        bind_p (get_p stats_v ''methodCounts'') (\<lambda>counts.
        bind_p (increment_at counts (toUpperCase method)) (\<lambda>u.
        ret (endpointCount_v + 1))))
      else ret endpointCount_v)"

definition stats_path_s :: "val \<Rightarrow> val \<Rightarrow> nat \<Rightarrow> string \<times> val \<Rightarrow> nat prog" where
  "stats_path_s stats_v apiMethods_v endpointCount_v pi =
     (case pi of (path, pathItem) \<Rightarrow>
        bind_p (keys_p pathItem) (\<lambda>methods.
        bind_p (fold_p (stats_method_s stats_v apiMethods_v) methods endpointCount_v) (\<lambda>n.
        bind_p (get_p stats_v ''commonPaths'') (\<lambda>counts.
        bind_p (increment_at counts (pathPattern path)) (\<lambda>u.
        ret n)))))"

definition stats_spec_s :: "val \<Rightarrow> val \<Rightarrow> unit prog" where
  "stats_spec_s stats_v spec_v =
     bind_p (make (OSet [])) (\<lambda>apiMethods_v.
     bind_p (get_p spec_v ''paths'') (\<lambda>paths1.
     bind_p (if truthy_val paths1
             then bind_p (get_p spec_v ''paths'') (\<lambda>paths2.
                  bind_p (entries_p paths2) (\<lambda>items.
                  fold_p (stats_path_s stats_v apiMethods_v) items 0))
             else ret 0) (\<lambda>endpointCount_v.
     bind_p (add_to_field stats_v ''totalEndpoints'' endpointCount_v) (\<lambda>u.
     bind_p (get_p spec_v ''info'') (\<lambda>info1.
     bind_p (opt_get_p info1 ''version'') (\<lambda>version1.
     bind_p (get_p stats_v ''versions'') (\<lambda>counts.
     bind_p (text_p (or_val version1 (VStr ''unknown''))) (\<lambda>key.
     bind_p (increment_at counts key) (\<lambda>u.
     bind_p (get_p stats_v ''apis'') (\<lambda>apis_v.
     bind_p (get_p spec_v ''filename'') (\<lambda>filename_v.
     bind_p (get_p spec_v ''info'') (\<lambda>info2.
     bind_p (opt_get_p info2 ''title'') (\<lambda>title_v.
     bind_p (get_p spec_v ''info'') (\<lambda>info3.
     bind_p (opt_get_p info3 ''version'') (\<lambda>version2.
     bind_p (sorted_array_p apiMethods_v) (\<lambda>methods.
     bind_p (make (OObj [(''filename'', filename_v),
                         (''title'', title_v),
                         (''version'', version2),
                         (''endpointCount'', VNum (show_nat endpointCount_v)),
                         (''methods'', methods)])) (\<lambda>entry.
     array_push apis_v entry)))))))))))))))))"

definition getApiStats_s :: "val \<Rightarrow> val prog" where
  "getApiStats_s this =
     bind_p (get_p this ''specs'') (\<lambda>specs1.
     bind_p (get_p specs1 ''length'') (\<lambda>totalApis_v.
     bind_p (make (OCounts [])) (\<lambda>methodCounts_v.
     bind_p (make (OCounts [])) (\<lambda>commonPaths_v.
     bind_p (make (OCounts [])) (\<lambda>versions_v.
     bind_p (make (OArr [])) (\<lambda>apis_v.
     bind_p (make (OObj [(''totalApis'', totalApis_v),
                         (''totalEndpoints'', VNum ''0''),
                         (''methodCounts'', methodCounts_v),
                         (''commonPaths'', commonPaths_v),
                         (''versions'', versions_v),
                         (''apis'', apis_v)])) (\<lambda>stats_v.
     bind_p (get_p this ''specs'') (\<lambda>specs2.
     bind_p (for_of specs2 (stats_spec_s stats_v)) (\<lambda>u.
     ret stats_v)))))))))"

text \<open>\<^verbatim>\<open>findInconsistencies\<close>.\<close>

definition auth_scheme_s :: "val \<Rightarrow> val \<Rightarrow> string \<times> val \<Rightarrow> unit prog" where
  "auth_scheme_s authSchemes spec_v ns =
     (case ns of (name, scheme) \<Rightarrow>
        bind_p (get_p scheme ''type'') (\<lambda>type_v.
        if truthy_val type_v then
          bind_p (map_has_p authSchemes type_v) (\<lambda>has.
          bind_p (if \<not> has
                  then bind_p (make (OArr [])) (\<lambda>names. map_set_p authSchemes type_v names)
                  else ret ()) (\<lambda>u.
          bind_p (map_get_p authSchemes type_v) (\<lambda>names.
          bind_p (get_p spec_v ''filename'') (\<lambda>filename_v.
          bind_p (text_p filename_v) (\<lambda>shown.
          array_push names (VStr (shown @ '': '' @ name)))))))
        else ret ()))"

definition auth_spec_s :: "val \<Rightarrow> val \<Rightarrow> unit prog" where
  "auth_spec_s authSchemes spec_v =
     bind_p (get_p spec_v ''spec'') (\<lambda>doc1.
     bind_p (get_p doc1 ''components'') (\<lambda>components1.
     bind_p (opt_get_p components1 ''securitySchemes'') (\<lambda>schemes1.
     if truthy_val schemes1 then
       bind_p (get_p spec_v ''spec'') (\<lambda>doc2.
       bind_p (get_p doc2 ''components'') (\<lambda>components2.
       bind_p (get_p components2 ''securitySchemes'') (\<lambda>schemes2.
       bind_p (entries_p schemes2) (\<lambda>items.
       for_each_p (auth_scheme_s authSchemes spec_v) items))))
     else ret ())))"

definition findInconsistencies_s :: "val \<Rightarrow> val prog" where
  "findInconsistencies_s this =
     bind_p (make (OArr [])) (\<lambda>inconsistencies.
     bind_p (make (OMap [])) (\<lambda>authSchemes.
     bind_p (get_p this ''specs'') (\<lambda>specs.
     bind_p (for_of specs (auth_spec_s authSchemes)) (\<lambda>u.
     bind_p (map_size_p authSchemes) (\<lambda>size.
     bind_p (if size > 1
             then bind_p (from_entries_p authSchemes) (\<lambda>details.
                  bind_p (make (OObj [(''type'', VStr ''authentication''),
                                      (''message'',
                                       VStr ''Multiple authentication schemes found across APIs''),
                                      (''details'', details)])) (\<lambda>record_v.
                  array_push inconsistencies record_v))
             else ret ()) (\<lambda>u.
     ret inconsistencies))))))"

text \<open>\<^verbatim>\<open>compareSchemas\<close>.\<close>

definition compare_name_s :: "val \<Rightarrow> val \<Rightarrow> string \<Rightarrow> unit prog" where
  "compare_name_s schemas spec_v schemaName =
     bind_p (get_p spec_v ''components'') (\<lambda>components1.
     bind_p (get_p components1 ''schemas'') (\<lambda>schemas1.
     bind_p (get_p schemas1 schemaName) (\<lambda>found.
     if truthy_val found then
       bind_p (get_p spec_v ''filename'') (\<lambda>filename_v.
       bind_p (get_p spec_v ''info'') (\<lambda>info1.
       bind_p (opt_get_p info1 ''title'') (\<lambda>api.
       bind_p (get_p spec_v ''components'') (\<lambda>components2.
       bind_p (get_p components2 ''schemas'') (\<lambda>schemas2.
       bind_p (get_p schemas2 schemaName) (\<lambda>schema.
       bind_p (make (OObj [(''filename'', filename_v),
                           (''api'', api),
                           (''schemaName'', VStr schemaName),
                           (''schema'', schema)])) (\<lambda>record_v.
       array_push schemas record_v)))))))
     else ret ())))"

definition compare_spec_s :: "val \<Rightarrow> string list \<Rightarrow> val \<Rightarrow> unit prog" where
  "compare_spec_s schemas schemaNames spec_v =
     bind_p (get_p spec_v ''components'') (\<lambda>components1.
     bind_p (opt_get_p components1 ''schemas'') (\<lambda>schemas1.
     if truthy_val schemas1 then for_each_p (compare_name_s schemas spec_v) schemaNames
     else ret ()))"

definition compareSchemas_s :: "val \<Rightarrow> string \<Rightarrow> string \<Rightarrow> val prog" where
  "compareSchemas_s this schema1Name schema2Name =
     bind_p (make (OArr [])) (\<lambda>schemas.
     bind_p (get_p this ''specs'') (\<lambda>specs.
     bind_p (for_of specs
               (compare_spec_s schemas
                  (if schema2Name \<noteq> [] then [schema1Name, schema2Name] else [schema1Name]))) (\<lambda>u.
     ret schemas)))"

subsection \<open>Calls\<close>

datatype query =
  ListAllSpecs | GetLoadedSources | GetSpecByFilename string | SearchEndpoints string
  | GetApiStats | FindInconsistencies | CompareSchemas string string

definition method_of :: "query \<Rightarrow> val \<Rightarrow> val prog" where
  "method_of q this =
     (case q of
        ListAllSpecs \<Rightarrow> listAllSpecs_s this
      | GetLoadedSources \<Rightarrow> getLoadedSources_s this
      | GetSpecByFilename f \<Rightarrow> getSpecByFilename_s this f
      | SearchEndpoints query \<Rightarrow> searchEndpoints_s this query
      | GetApiStats \<Rightarrow> getApiStats_s this
      | FindInconsistencies \<Rightarrow> findInconsistencies_s this
      | CompareSchemas n1 n2 \<Rightarrow> compareSchemas_s this n1 n2)"

text \<open>
  A call of a query method on the analyzer at the address \<open>a\<close> when the objects \<open>R\<close>
  exist: what it returns or throws, and the store as the call leaves it. A sequence of
  calls: every call finds the old objects as the call before has left them.
\<close>

definition call :: "obj list \<Rightarrow> nat \<Rightarrow> query \<Rightarrow> ((error + val) \<times> store) option" where
  "call R a q = method_of q (VRef (Old a)) \<lparr> st_old = R, st_new = [] \<rparr>"

fun run :: "obj list \<Rightarrow> nat \<Rightarrow> query list \<Rightarrow> (((error + val) \<times> obj list) list \<times> obj list) option" where
  "run R a [] = Some ([], R)"
| "run R a (q # qs) =
     (case call R a q of
        None \<Rightarrow> None
      | Some (res, st) \<Rightarrow>
          (case run (st_old st) a qs of
             None \<Rightarrow> None
           | Some (rest, R') \<Rightarrow> Some ((res, st_new st) # rest, R')))"

subsection \<open>What a statement leaves as it is\<close>

text \<open>
  A statement \<open>p\<close> is safe for the old objects \<open>R\<close> under an invariant \<open>J\<close> of the
  store: from every store whose old objects are \<open>R\<close> and that satisfies \<open>J\<close> it
  returns or throws, the old objects are still \<open>R\<close>, and when it has returned, \<open>J\<close>
  holds again. With a precondition and a postcondition the same is \<open>tr\<close>.
\<close>

definition tr :: "obj list \<Rightarrow> (store \<Rightarrow> bool) \<Rightarrow> 'a prog \<Rightarrow> ('a \<Rightarrow> store \<Rightarrow> bool) \<Rightarrow> bool" where
  "tr R P p Q \<longleftrightarrow>
     (\<forall>st. st_old st = R \<longrightarrow> P st \<longrightarrow>
        (\<exists>r st'. p st = Some (r, st') \<and> st_old st' = R \<and> (\<forall>x. r = Inr x \<longrightarrow> Q x st')))"

definition keeps :: "obj list \<Rightarrow> (store \<Rightarrow> bool) \<Rightarrow> 'a prog \<Rightarrow> bool" where
  "keeps R J p \<longleftrightarrow> tr R J p (\<lambda>x. J)"

text \<open>A value that is not a reference to an old object.\<close>

definition local_val :: "val \<Rightarrow> bool" where
  "local_val v \<longleftrightarrow> (\<forall>a. v \<noteq> VRef (Old a))"

text \<open>
  An invariant that no new object and no change of a new array, counter object or set can
  break.
\<close>

definition stable :: "(store \<Rightarrow> bool) \<Rightarrow> bool" where
  "stable J \<longleftrightarrow>
     (\<forall>st ob. J st \<longrightarrow> J (st\<lparr> st_new := st_new st @ [ob] \<rparr>))
     \<and> (\<forall>st k xs ys. J st \<longrightarrow> obj_at st (New k) = Some (OArr xs) \<longrightarrow>
           J (put_obj st (New k) (OArr ys)))
     \<and> (\<forall>st k m m'. J st \<longrightarrow> obj_at st (New k) = Some (OCounts m) \<longrightarrow>
           J (put_obj st (New k) (OCounts m')))
     \<and> (\<forall>st k xs ys. J st \<longrightarrow> obj_at st (New k) = Some (OSet xs) \<longrightarrow>
           J (put_obj st (New k) (OSet ys)))"

text \<open>
  The objects that a loop body leaves as they are include the array that the loop runs
  over, so the loop ends after as many rounds as the array has elements.
\<close>

definition old_length :: "obj list \<Rightarrow> nat \<Rightarrow> nat" where
  "old_length R a = (if a < length R then (case R ! a of OArr xs \<Rightarrow> length xs | _ \<Rightarrow> 0) else 0)"

text \<open>
  A new array that is empty when the loop starts gives no round. (No old object holds a
  reference to a new one, so this case does not occur.)
\<close>

fun empty_if_array :: "obj \<Rightarrow> bool" where
  "empty_if_array (OArr xs) = (xs = [])"
| "empty_if_array ob = True"

definition new_arrays_empty :: "store \<Rightarrow> bool" where
  "new_arrays_empty st \<longleftrightarrow> list_all empty_if_array (st_new st)"

text \<open>
  \<^verbatim>\<open>getApiStats\<close> reads the targets of its writes from \<^verbatim>\<open>stats\<close>, the fifth object it
  makes: under \<^verbatim>\<open>methodCounts\<close>, \<^verbatim>\<open>commonPaths\<close>, \<^verbatim>\<open>versions\<close> and \<^verbatim>\<open>apis\<close>
  that object holds no reference to an old object, and no write of the method changes
  that. \<^verbatim>\<open>findInconsistencies\<close> reads them from the map, the second object it makes,
  whose values are arrays that the method has made.
\<close>

definition stats_fields :: "string list" where
  "stats_fields = [''methodCounts'', ''commonPaths'', ''versions'', ''apis'']"

definition stats_inv :: "store \<Rightarrow> bool" where
  "stats_inv st \<longleftrightarrow>
     (\<exists>kvs. obj_at st (New 4) = Some (OObj kvs)
        \<and> (\<forall>k v. k \<in> set stats_fields \<longrightarrow> map_of kvs k = Some v \<longrightarrow> local_val v))"

definition auth_inv :: "store \<Rightarrow> bool" where
  "auth_inv st \<longleftrightarrow>
     (\<exists>es. obj_at st (New 1) = Some (OMap es) \<and> (\<forall>v \<in> snd ` set es. local_val v))"

section \<open>Example registries\<close>

definition blank_args :: ToolArgs where
  "blank_args = \<lparr> arg_filename = None, arg_query = None, arg_schema1 = None, arg_schema2 = None \<rparr>"

definition analyzer_of :: "OpenAPISpec list \<Rightarrow> OpenAPIAnalyzer" where
  "analyzer_of specs =
     \<lparr> an_specs = specs, an_loadedSources = [], an_discoveryUrl = None, an_specUrls = [],
       an_specsFolder = None \<rparr>"

definition document_only :: "string \<Rightarrow> jsrecord \<Rightarrow> OpenAPISpec" where
  "document_only f d =
     \<lparr> filename = f, spec = d, info = None, paths = None, components = None, source = None \<rparr>"

text \<open>A spec as the loader builds it from a parsed document and a file name.\<close>

definition info_of :: "string \<Rightarrow> string \<Rightarrow> OpenAPIInfo" where
  "info_of t v = \<lparr> title = Some t, version = Some v, description = None \<rparr>"

definition with_paths :: "string \<Rightarrow> string \<Rightarrow> string \<Rightarrow> jsrecord \<Rightarrow> OpenAPISpec" where
  "with_paths f t v ps =
     \<lparr> filename = f, spec = [(''paths'', JObj ps)], info = Some (info_of t v), paths = Some ps,
       components = None, source = None \<rparr>"

text \<open>The registry of the search tests of the repository.\<close>

definition test_api :: OpenAPISpec where
  "test_api = with_paths ''test.json'' ''Test API'' ''1.0.0''
     [(''/users'', JObj
        [(''get'', JObj [(''summary'', JStr ''Get all users''),
                         (''description'', JStr ''Retrieve list of users''),
                         (''operationId'', JStr ''getUsers'')]),
         (''post'', JObj [(''summary'', JStr ''Create user''),
                          (''description'', JStr ''Create a new user''),
                          (''operationId'', JStr ''createUser'')])]),
      (''/posts'', JObj
        [(''get'', JObj [(''summary'', JStr ''Get posts''),
                         (''description'', JStr ''Retrieve blog posts''),
                         (''operationId'', JStr ''getPosts'')])])]"

text \<open>A path item with shared parameters, a reference and one operation.\<close>

definition pets_api :: OpenAPISpec where
  "pets_api = with_paths ''pets.json'' ''Pets'' ''1.0.0''
     [(''/pets'', JObj
        [(''parameters'', JArr [JObj [(''name'', JStr ''limit''), (''in'', JStr ''query'')]]),
         (''$ref'', JStr ''#/components/pathItems/pets''),
         (''get'', JObj [(''summary'', JStr ''List pets'')])])]"

text \<open>The two specs and the braces scenario of the specification's testable properties.\<close>

definition spec_a :: OpenAPISpec where
  "spec_a = with_paths ''a.json'' ''A'' ''1.0.0''
     [(''/users'', JObj [(''get'', JObj []), (''post'', JObj [])])]"

definition spec_b :: OpenAPISpec where
  "spec_b = with_paths ''b.json'' ''B'' ''2.0.0'' [(''/products'', JObj [(''get'', JObj [])])]"

definition braces_api :: OpenAPISpec where
  "braces_api = with_paths ''braces.json'' ''Braces'' ''1.0.0''
     [(''/a/{x}'', JObj [(''get'', JObj [])]), (''/a/{y}'', JObj [(''post'', JObj [])])]"

text \<open>The registries of the repository's tests of the authentication check.\<close>

definition scheme_doc :: "(string \<times> string) list \<Rightarrow> jsrecord" where
  "scheme_doc schemes =
     [(''components'', JObj [(''securitySchemes'',
         JObj (map (\<lambda>nt. (fst nt, JObj [(''type'', JStr (snd nt))])) schemes))])]"

definition api1 :: OpenAPISpec where
  "api1 = document_only ''api1.json'' (scheme_doc [(''bearerAuth'', ''http'')])"

definition api2 :: OpenAPISpec where
  "api2 = document_only ''api2.json'' (scheme_doc [(''apiKey'', ''apiKey'')])"

definition api3 :: OpenAPISpec where
  "api3 = document_only ''api3.json'' (scheme_doc [(''bearerToken'', ''http'')])"

text \<open>The registry of the repository's tests of the schema comparison.\<close>

definition with_schemas :: "string \<Rightarrow> string \<Rightarrow> jsrecord \<Rightarrow> OpenAPISpec" where
  "with_schemas f t schemas =
     \<lparr> filename = f, spec = [(''components'', JObj [(''schemas'', JObj schemas)])],
       info = Some (info_of t ''1.0.0''), paths = None,
       components = Some [(''schemas'', JObj schemas)], source = None \<rparr>"

definition users1 :: OpenAPISpec where
  "users1 = with_schemas ''api1.json'' ''API 1''
     [(''User'', JObj [(''type'', JStr ''object'')]),
      (''Product'', JObj [(''type'', JStr ''object'')])]"

definition users2 :: OpenAPISpec where
  "users2 = with_schemas ''api2.json'' ''API 2'' [(''User'', JObj [(''type'', JStr ''object'')])]"

definition user_record :: "string \<Rightarrow> string \<Rightarrow> SchemaComparison" where
  "user_record f t =
     \<lparr> c_filename = f, c_api = Some t, c_schemaName = ''User'',
       c_schema = Data (JObj [(''type'', JStr ''object'')]) \<rparr>"

text \<open>A spec whose version is the name of an inherited member.\<close>

definition constructor_api :: OpenAPISpec where
  "constructor_api = with_paths ''c.json'' ''C'' ''constructor'' [(''/c'', JObj [(''get'', JObj [])])]"

text \<open>
  A registry as a store: the analyzer at address 0, its array of one spec, and the nodes
  of the document of that spec, which the entry points into.
\<close>

definition small_registry :: "obj list" where
  "small_registry =
     [OObj [(''specs'', VRef (Old 1)), (''loadedSources'', VRef (Old 2))],
      OArr [VRef (Old 3)],
      OArr [],
      OObj [(''filename'', VStr ''test.json''), (''spec'', VRef (Old 4)), (''info'', VRef (Old 5)),
            (''paths'', VRef (Old 6)), (''components'', VRef (Old 10))],
      OObj [(''openapi'', VStr ''3.0.0''), (''info'', VRef (Old 5)), (''paths'', VRef (Old 6)),
            (''components'', VRef (Old 10))],
      OObj [(''title'', VStr ''Test API''), (''version'', VStr ''1.0.0'')],
      OObj [(''/users/{id}'', VRef (Old 7))],
      OObj [(''get'', VRef (Old 8)), (''post'', VRef (Old 9))],
      OObj [(''summary'', VStr ''Get a user''), (''operationId'', VStr ''getUser'')],
      OObj [(''summary'', VStr ''Change a user'')],
      OObj [(''securitySchemes'', VRef (Old 11)), (''schemas'', VRef (Old 14))],
      OObj [(''bearerAuth'', VRef (Old 12)), (''apiKey'', VRef (Old 13))],
      OObj [(''type'', VStr ''http'')],
      OObj [(''type'', VStr ''apiKey'')],
      OObj [(''User'', VRef (Old 15))],
      OObj [(''type'', VStr ''object'')]]"

text \<open>The same spec as the first embedding has it.\<close>

definition small_api :: OpenAPISpec where
  "small_api = with_paths ''test.json'' ''Test API'' ''1.0.0''
     [(''/users/{id}'', JObj
        [(''get'', JObj [(''summary'', JStr ''Get a user''), (''operationId'', JStr ''getUser'')]),
         (''post'', JObj [(''summary'', JStr ''Change a user'')])])]"

section \<open>Loops and letters\<close>

lemma for_each_foldl:
  assumes "\<And>st x. x \<in> set xs \<Longrightarrow> body st x = (if ok x then Inr (h st x) else Inl e)"
  shows "for_each body xs st = (if list_all ok xs then Inr (foldl h st xs) else Inl e)"
  using assms by (induction xs arbitrary: st) auto

lemma foldl_append_concat: "foldl (\<lambda>acc x. acc @ g x) acc xs = acc @ concat (map g xs)"
  by (induction xs arbitrary: acc) auto

lemma lower_lower: "lower_char (lower_char c) = lower_char c"
  by (simp add: lower_char_def upper_letters_def lower_letters_def)

lemma lower_upper: "lower_char (upper_char c) = lower_char c"
  by (simp add: lower_char_def upper_char_def upper_letters_def lower_letters_def)

lemma upper_lower: "upper_char (lower_char c) = upper_char c"
  by (simp add: lower_char_def upper_char_def upper_letters_def lower_letters_def)

lemma toUpper_toLower: "toUpperCase (toLowerCase m) = toUpperCase m"
  by (simp add: toUpperCase_def toLowerCase_def upper_lower)

lemma toLower_toUpper: "toLowerCase (toUpperCase m) = toLowerCase m"
  by (simp add: toUpperCase_def toLowerCase_def lower_upper)

lemma same_letter_lower: "same_letter a b \<Longrightarrow> lower_char a = lower_char b"
  by (auto simp: same_letter_def swap_case_def lower_lower lower_upper split: if_splits)

lemma case_variant_lower: "case_variant q1 q2 \<Longrightarrow> toLowerCase q1 = toLowerCase q2"
  unfolding case_variant_def toLowerCase_def
  by (induction q1 q2 rule: list_all2_induct) (auto dest: same_letter_lower)

lemma js_entries_cases:
  "js_entries v = (if v = JNull then Inl TypeError else Inr (own_entries v))"
  by (cases v) (auto simp: own_entries_def)

lemma js_keys_cases:
  "js_keys v = (if v = JNull then Inl TypeError else Inr (own_keys v))"
  by (simp add: js_keys_def js_entries_cases own_keys_def)

section \<open>Search\<close>

lemma starts_with_iff: "starts_with t q \<longleftrightarrow> (\<exists>b. t = q @ b)"
  by (induction q arbitrary: t) (auto split: list.splits)

lemma js_includes_iff: "js_includes t q \<longleftrightarrow> (\<exists>a b. t = a @ q @ b)"
proof (induction t)
  case Nil
  show ?case by auto
next
  case (Cons c t)
  note IH = Cons.IH
  show ?case
  proof
    assume "js_includes (c # t) q"
    then consider "starts_with (c # t) q" | "js_includes t q" by auto
    then show "\<exists>a b. c # t = a @ q @ b"
    proof cases
      case 1
      then obtain b where "c # t = q @ b" by (auto simp: starts_with_iff)
      then have "c # t = [] @ q @ b" by simp
      then show ?thesis by blast
    next
      case 2
      with IH obtain a b where "t = a @ q @ b" by auto
      then have "c # t = (c # a) @ q @ b" by simp
      then show ?thesis by blast
    qed
  next
    assume "\<exists>a b. c # t = a @ q @ b"
    then obtain a b where ab: "c # t = a @ q @ b" by auto
    show "js_includes (c # t) q"
    proof (cases a)
      case Nil
      with ab have "starts_with (c # t) q" by (auto simp: starts_with_iff)
      then show ?thesis by simp
    next
      case (Cons d a')
      with ab have "t = a' @ q @ b" by simp
      then have "\<exists>a b. t = a @ q @ b" by blast
      then have "js_includes t q" by (simp only: IH)
      then show ?thesis by simp
    qed
  qed
qed

text \<open>
  C2 fails on the code. The specification has the search return results for HTTP method
  entries only: the test for a non-null object is to leave out path-item fields such as
  \<^verbatim>\<open>parameters\<close> and \<^verbatim>\<open>$ref\<close>. An array is an object to \<^verbatim>\<open>typeof\<close>, so
  in the registry of one spec with the path item
  \<^verbatim>\<open>/pets: {parameters: [{name: limit, in: query}], $ref: ..., get: {summary: List pets}}\<close>
  the query \<^verbatim>\<open>pets\<close> returns two results: one for the shared \<^verbatim>\<open>parameters\<close>,
  with the method \<^verbatim>\<open>PARAMETERS\<close>, which is none of the HTTP methods, and one for
  \<^verbatim>\<open>get\<close>; the string under \<^verbatim>\<open>$ref\<close> is left out.
\<close>

theorem search_returns_parameters:
  "searchEndpoints [pets_api] ''pets'' =
     Inr [\<lparr> r_filename = ''pets.json'', r_api_title = Some ''Pets'', r_path = ''/pets'',
             r_method = ''PARAMETERS'', r_summary = None, r_description = None,
             r_operationId = None \<rparr>,
          \<lparr> r_filename = ''pets.json'', r_api_title = Some ''Pets'', r_path = ''/pets'',
             r_method = ''GET'', r_summary = Some (JStr ''List pets''), r_description = None,
             r_operationId = None \<rparr>]
   \<and> toLowerCase ''parameters'' \<notin> set httpMethods"
  by code_simp

text \<open>
  C6. \<^verbatim>\<open>searchEndpoints\<close> does not see the case of its query: on every registry, two
  queries that are case variants of each other, such as \<^verbatim>\<open>USERS\<close> and
  \<^verbatim>\<open>users\<close>, give the same sequence of results (or both throw).
\<close>

theorem search_case_insensitive:
  "case_variant q1 q2 \<Longrightarrow> searchEndpoints specs q1 = searchEndpoints specs q2"
  by (simp add: searchEndpoints_def case_variant_lower)

theorem search_case_insensitive_witness:
  "case_variant ''USERS'' ''users''
   \<and> searchEndpoints [test_api] ''USERS'' = searchEndpoints [test_api] ''users''
   \<and> (\<exists>hits. searchEndpoints [test_api] ''users'' = Inr hits \<and> length hits = 2)"
proof -
  have cv: "case_variant ''USERS'' ''users''" by code_simp
  have e: "searchEndpoints [test_api] ''users'' =
     Inr [\<lparr> r_filename = ''test.json'', r_api_title = Some ''Test API'', r_path = ''/users'',
             r_method = ''GET'', r_summary = Some (JStr ''Get all users''),
             r_description = Some (JStr ''Retrieve list of users''),
             r_operationId = Some (JStr ''getUsers'') \<rparr>,
          \<lparr> r_filename = ''test.json'', r_api_title = Some ''Test API'', r_path = ''/users'',
             r_method = ''POST'', r_summary = Some (JStr ''Create user''),
             r_description = Some (JStr ''Create a new user''),
             r_operationId = Some (JStr ''createUser'') \<rparr>]"
    by code_simp
  have h: "\<exists>hits. searchEndpoints [test_api] ''users'' = Inr hits \<and> length hits = 2"
    by (rule exI, rule conjI, rule e) simp
  show ?thesis
    by (intro conjI) (rule cv search_case_insensitive [OF cv] h)+
qed

section \<open>Lookup by filename\<close>

lemma getSpecByFilename_none:
  assumes "\<forall>s \<in> set specs. filename s \<noteq> f"
  shows "getSpecByFilename specs f = None"
proof -
  from assms have "find (\<lambda>s. filename s = f) specs = None"
    by (auto simp: find_None_iff)
  then show ?thesis by (simp add: getSpecByFilename_def)
qed

lemma getSpecByFilename_some:
  assumes "\<exists>s \<in> set specs. filename s = f"
  shows "\<exists>s \<in> set specs. filename s = f \<and> getSpecByFilename specs f = Some (spec s)"
proof -
  from assms obtain s where s: "find (\<lambda>s. filename s = f) specs = Some s"
    by (cases "find (\<lambda>s. filename s = f) specs") (auto simp: find_None_iff)
  then have "s \<in> set specs" "filename s = f"
    by (auto simp: find_Some_iff)
  with s show ?thesis by (auto simp: getSpecByFilename_def)
qed

lemma get_api_spec_no_throw: "call_tool analyzer Get_api_spec args \<noteq> Caught e"
  by (simp add: call_tool_def split: option.splits)

text \<open>
  C8. \<^verbatim>\<open>getSpecByFilename\<close> returns \<^verbatim>\<open>null\<close> (\<open>None\<close>) when no loaded spec has the
  filename, and the whole raw document of a spec with that filename when there is one, on
  every registry, the empty one included. The \<^verbatim>\<open>get_api_spec\<close> tool, called with a
  filename that no loaded spec has, answers with the text
  \<^verbatim>\<open>API spec not found: <filename>\<close>; whatever its arguments, its answer is never the text
  of a caught exception. (An absent or empty filename is answered earlier, by the text that
  the parameter is required.)
\<close>

theorem get_api_spec_not_found:
  "((\<forall>s \<in> set specs. filename s \<noteq> f) \<longrightarrow> getSpecByFilename specs f = None)
   \<and> ((\<exists>s \<in> set specs. filename s = f) \<longrightarrow>
        (\<exists>s \<in> set specs. filename s = f \<and> getSpecByFilename specs f = Some (spec s)))
   \<and> ((\<forall>s \<in> set (an_specs analyzer). filename s \<noteq> f) \<and> f \<noteq> [] \<and> arg_filename a = Some f \<longrightarrow>
        call_tool analyzer Get_api_spec (Some a) = Text (''API spec not found: '' @ f))
   \<and> call_tool analyzer Get_api_spec args \<noteq> Caught e"
  using getSpecByFilename_none getSpecByFilename_some get_api_spec_no_throw
  by (auto simp: call_tool_def)

theorem get_api_spec_not_found_witness:
  "getSpecByFilename [] ''missing.json'' = None
   \<and> getSpecByFilename [document_only ''a.json'' [(''openapi'', JStr ''3.0.0'')]] ''a.json''
       = Some [(''openapi'', JStr ''3.0.0'')]
   \<and> call_tool (analyzer_of []) Get_api_spec (Some (blank_args\<lparr> arg_filename := Some ''missing.json'' \<rparr>))
       = Text ''API spec not found: missing.json''
   \<and> call_tool (analyzer_of []) Get_api_spec (Some (blank_args\<lparr> arg_filename := Some ''missing.json'' \<rparr>))
       \<noteq> Caught TypeError"
  using get_api_spec_not_found [of "[]" "''missing.json''" "analyzer_of []"
      "blank_args\<lparr> arg_filename := Some ''missing.json'' \<rparr>"
      "Some (blank_args\<lparr> arg_filename := Some ''missing.json'' \<rparr>)" TypeError]
    get_api_spec_not_found [of "[document_only ''a.json'' [(''openapi'', JStr ''3.0.0'')]]" "''a.json''"
      "analyzer_of []" "blank_args\<lparr> arg_filename := Some ''missing.json'' \<rparr>"
      "Some (blank_args\<lparr> arg_filename := Some ''missing.json'' \<rparr>)" TypeError]
  by (simp add: analyzer_of_def blank_args_def document_only_def)

section \<open>Statistics\<close>

lemma recognized_verbs_upper: "recognized_verbs = map toUpperCase httpMethods"
  by code_simp

lemma httpMethods_lower: "h \<in> set httpMethods \<Longrightarrow> toLowerCase h = h"
  by (auto simp: httpMethods_def) code_simp+

lemma recognized_iff: "recognized m \<longleftrightarrow> toLowerCase m \<in> set httpMethods"
proof
  assume "recognized m"
  then obtain h where h: "h \<in> set httpMethods" "toUpperCase m = toUpperCase h"
    by (auto simp: recognized_def recognized_verbs_upper)
  then have "toLowerCase (toUpperCase m) = toLowerCase (toUpperCase h)" by simp
  then have "toLowerCase m = h" using h(1) by (simp add: toLower_toUpper httpMethods_lower)
  with h(1) show "toLowerCase m \<in> set httpMethods" by simp
next
  assume "toLowerCase m \<in> set httpMethods"
  then have "toUpperCase (toLowerCase m) \<in> set recognized_verbs"
    by (simp add: recognized_verbs_upper)
  then show "recognized m" by (simp add: recognized_def toUpper_toLower)
qed

lemma method_step_scan:
  "method_step sc m = scan_methods sc (filter recognized [m])"
  by (simp add: method_step_def scan_methods_def recognized_iff tally_def Let_def)

lemma scan_methods_append:
  "scan_methods (scan_methods sc xs) ys = scan_methods sc (xs @ ys)"
  by (simp add: scan_methods_def tally_def)

lemma methods_fold:
  "foldl method_step sc ms = scan_methods sc (filter recognized ms)"
proof (induction ms arbitrary: sc)
  case Nil
  show ?case by (simp add: scan_methods_def tally_def)
next
  case (Cons m ms)
  have "foldl method_step sc (m # ms) = foldl method_step (method_step sc m) ms"
    by simp
  also have "\<dots> = scan_methods (scan_methods sc (filter recognized [m])) (filter recognized ms)"
    by (simp only: Cons.IH method_step_scan)
  also have "\<dots> = scan_methods sc (filter recognized (m # ms))"
    by (simp only: scan_methods_append) simp
  finally show ?case .
qed

lemma path_step_scan:
  "path_step sc pi = (if item_ok pi then Inr (scan_path sc pi) else Inl TypeError)"
  by (cases pi) (simp add: path_step_def js_keys_cases item_ok_def scan_path_def methods_fold Let_def)

lemma scan_path_paths: "scan_path sc pi = scan_paths sc [pi]"
  by (simp add: scan_path_def scan_paths_def scan_methods_def path_verbs_def tally_def bumps_def Let_def)

lemma scan_paths_append: "scan_paths (scan_paths sc xs) ys = scan_paths sc (xs @ ys)"
  by (simp add: scan_paths_def tally_def bumps_def)

lemma paths_fold: "foldl scan_path sc ps = scan_paths sc ps"
proof (induction ps arbitrary: sc)
  case Nil
  show ?case by (simp add: scan_paths_def tally_def bumps_def)
next
  case (Cons pi ps)
  have "foldl scan_path sc (pi # ps) = foldl scan_path (scan_path sc pi) ps"
    by simp
  also have "\<dots> = scan_paths (scan_paths sc [pi]) ps"
    by (simp only: Cons.IH scan_path_paths)
  also have "\<dots> = scan_paths sc (pi # ps)"
    by (simp only: scan_paths_append) simp
  finally show ?case .
qed

lemma for_each_path_step:
  "for_each path_step ps sc = (if list_all item_ok ps then Inr (scan_paths sc ps) else Inl TypeError)"
proof -
  have "for_each path_step ps sc =
      (if list_all item_ok ps then Inr (foldl scan_path sc ps) else Inl TypeError)"
    by (rule for_each_foldl) (rule path_step_scan)
  then show ?thesis by (simp add: paths_fold)
qed

lemma snd_endpoint_pairs: "map snd (endpoint_pairs s) = concat (map path_verbs (paths_of s))"
  unfolding endpoint_pairs_def path_verbs_def by (simp add: map_concat comp_def)

lemma verbs_used_paths: "verbs_used s = map toUpperCase (concat (map path_verbs (paths_of s)))"
proof -
  have "verbs_used s = map toUpperCase (map snd (endpoint_pairs s))"
    by (simp add: verbs_used_def comp_def)
  then show ?thesis by (simp only: snd_endpoint_pairs)
qed

lemma length_endpoint_pairs:
  "length (endpoint_pairs s) = length (concat (map path_verbs (paths_of s)))"
proof -
  have "length (endpoint_pairs s) = length (map snd (endpoint_pairs s))" by simp
  then show ?thesis by (simp only: snd_endpoint_pairs)
qed

lemma spec_step_add:
  "spec_step st s = (if items_ok s then Inr (add_specs st [s]) else Inl TypeError)"
proof (cases "paths s")
  case None
  then show ?thesis
    by (simp add: spec_step_def items_ok_def add_specs_def api_entry_def verbs_used_paths
        length_endpoint_pairs paths_of_def tally_def bumps_def version_key_def all_paths_def Let_def)
next
  case (Some ps)
  then show ?thesis
    by (simp add: spec_step_def items_ok_def add_specs_def api_entry_def verbs_used_paths
        length_endpoint_pairs paths_of_def tally_def bumps_def version_key_def all_paths_def Let_def
        for_each_path_step scan_paths_def comp_def)
qed

lemma add_specs_append: "add_specs (add_specs st xs) ys = add_specs st (xs @ ys)"
  by (simp add: add_specs_def tally_def bumps_def all_paths_def)

lemma specs_fold: "foldl (\<lambda>st s. add_specs st [s]) st xs = add_specs st xs"
proof (induction xs arbitrary: st)
  case Nil
  show ?case by (simp add: add_specs_def tally_def bumps_def all_paths_def)
next
  case (Cons s xs)
  have "foldl (\<lambda>st s. add_specs st [s]) st (s # xs) = add_specs (add_specs st [s]) xs"
    by (simp add: Cons.IH)
  also have "\<dots> = add_specs st (s # xs)"
    by (simp only: add_specs_append) simp
  finally show ?case .
qed

lemma getApiStats_value:
  "getApiStats specs = (if list_all items_ok specs then Inr (stats_of specs) else Inl TypeError)"
proof -
  let ?init = "\<lparr> totalApis = length specs, totalEndpoints = 0, methodCounts = [],
         commonPaths = [], versions = [], apis = [] \<rparr>"
  have "for_each spec_step specs ?init =
      (if list_all items_ok specs then Inr (foldl (\<lambda>st s. add_specs st [s]) ?init specs)
       else Inl TypeError)"
    by (rule for_each_foldl) (rule spec_step_add)
  moreover have "add_specs ?init specs = stats_of specs"
    by (simp add: add_specs_def stats_of_def)
  ultimately show ?thesis
    by (simp add: getApiStats_def specs_fold)
qed

lemma getApiStats_returns: "getApiStats specs = Inr st \<Longrightarrow> st = stats_of specs"
  by (simp add: getApiStats_value split: if_splits)

lemma map_of_set_prop: "map_of (set_prop m k v) = (map_of m)(k \<mapsto> v)"
  by (induction m k v rule: set_prop.induct) auto

lemma sum_set_prop:
  "sum_list (map snd (set_prop m k v)) + count_of m k = sum_list (map snd m) + v"
  by (induction m k v rule: set_prop.induct) (auto simp: count_of_def)

lemma sum_increment: "sum_list (map snd (increment m k)) = Suc (sum_list (map snd m))"
  using sum_set_prop [of m k "count_of m k + 1"] by (simp add: increment_def)

lemma sum_tally: "sum_list (map snd (tally m ks)) = sum_list (map snd m) + length ks"
  unfolding tally_def by (induction ks arbitrary: m) (auto simp: sum_increment)

lemma count_of_increment: "count_of (increment m k) k' = count_of m k' + (if k = k' then 1 else 0)"
  by (simp add: increment_def count_of_def map_of_set_prop)

lemma count_of_tally: "count_of (tally m ks) k = count_of m k + length (filter (\<lambda>x. x = k) ks)"
  unfolding tally_def by (induction ks arbitrary: m) (auto simp: count_of_increment)

lemma keys_set_prop: "map fst (set_prop m k v) = (if k \<in> fst ` set m then map fst m else map fst m @ [k])"
  by (induction m k v rule: set_prop.induct) auto

lemma distinct_tally: "distinct (map fst m) \<Longrightarrow> distinct (map fst (tally m ks))"
  unfolding tally_def by (induction ks arbitrary: m) (auto simp: increment_def keys_set_prop)

lemma length_concat_sum: "length (concat xss) = sum_list (map length xss)"
  by (induction xss) auto

lemma methodCounts_sum:
  "sum_list (map snd (methodCounts (stats_of specs))) = totalEndpoints (stats_of specs)"
  by (simp add: stats_of_def sum_tally length_concat_sum verbs_used_def comp_def)

lemma count_of_tally_map:
  "count_of (tally [] (map f xs)) k = length (filter (\<lambda>x. f x = k) xs)"
proof -
  have "count_of [] k = 0" by (simp add: count_of_def)
  then have "count_of (tally [] (map f xs)) k = length (filter (\<lambda>y. y = k) (map f xs))"
    by (simp only: count_of_tally)
  then show ?thesis by (simp add: filter_map comp_def)
qed

lemma pathPattern_plain:
  "CHR ''{'' \<notin> set p \<Longrightarrow> pathPattern (p @ s) = p @ pathPattern s"
  by (induction p) auto

lemma pathPattern_param:
  assumes "x \<noteq> []" "CHR ''}'' \<notin> set x"
  shows "pathPattern (''{'' @ x @ ''}'' @ s) = ''{id}'' @ pathPattern s"
proof -
  have d: "dropWhile (\<lambda>d. d \<noteq> CHR ''}'') (x @ CHR ''}'' # s) = CHR ''}'' # s"
    using assms(2) by (auto simp: dropWhile_append3)
  have t: "takeWhile (\<lambda>d. d \<noteq> CHR ''}'') (x @ CHR ''}'' # s) = x"
    using assms(2) by (auto simp: takeWhile_tail)
  show ?thesis using assms(1) by (simp add: d t)
qed

lemma pathPattern_render:
  "list_all segment_ok t \<Longrightarrow> pathPattern (render t) = render (map rename_param t)"
proof (induction t)
  case Nil
  show ?case by simp
next
  case (Cons g t)
  show ?case
  proof (cases g)
    case (Lit l)
    with Cons show ?thesis by (simp add: pathPattern_plain)
  next
    case (Param x)
    with Cons have "x \<noteq> []" "CHR ''}'' \<notin> set x" by auto
    from pathPattern_param [OF this, of "render t"] Cons Param show ?thesis by simp
  qed
qed

lemma pathPattern_head:
  "takeWhile (\<lambda>c. c \<noteq> CHR ''{'') (pathPattern s) = takeWhile (\<lambda>c. c \<noteq> CHR ''{'') s"
proof (induction s)
  case Nil
  show ?case by simp
next
  case (Cons c cs)
  then show ?case by (auto split: list.splits)
qed


text \<open>
  The keys of \<^verbatim>\<open>methodCounts\<close> are upper-cased verbs, and a key of
  \<^verbatim>\<open>commonPaths\<close> that comes from a path with a leading slash starts with the slash:
  none of them names a member that \<^verbatim>\<open>{}\<close> inherits.
\<close>

lemma recognized_verbs_own: "list_all (\<lambda>v. v \<notin> set object_prototype_names) recognized_verbs"
  by code_simp

lemma pathPattern_slash: "pathPattern (CHR ''/'' # cs) \<notin> set object_prototype_names"
  by (simp add: object_prototype_names_def)

lemma map_of_bump_other: "k' \<noteq> k \<Longrightarrow> map_of (bump m k) k' = map_of m k'"
  by (auto simp: bump_def map_of_set_prop split: option.splits counter.splits)

lemma map_of_bump_plain:
  assumes "k \<notin> set object_prototype_names"
    and "map_of m k = (if c = 0 then None else Some (CNum c))"
  shows "map_of (bump m k) k = Some (CNum (c + 1))"
  using assms by (simp add: bump_def map_of_set_prop split: if_splits)

lemma map_of_bumps_plain:
  assumes "k \<notin> set object_prototype_names"
    and "map_of m k = (if c = 0 then None else Some (CNum c))"
  shows "map_of (bumps m ks) k =
     (if c + length (filter (\<lambda>x. x = k) ks) = 0 then None
      else Some (CNum (c + length (filter (\<lambda>x. x = k) ks))))"
  using assms(2)
proof (induction ks arbitrary: m c)
  case Nil
  then show ?case by (simp add: bumps_def)
next
  case (Cons x ks)
  have step: "bumps m (x # ks) = bumps (bump m x) ks" by (simp add: bumps_def)
  show ?case
  proof (cases "x = k")
    case True
    have "map_of (bump m x) k = (if c + 1 = 0 then None else Some (CNum (c + 1)))"
      using map_of_bump_plain [OF assms(1) Cons.prems] True by simp
    from Cons.IH [OF this] True show ?thesis by (simp add: bumps_def)
  next
    case False
    then have "map_of (bump m x) k = (if c = 0 then None else Some (CNum c))"
      using Cons.prems by (simp add: map_of_bump_other)
    from Cons.IH [OF this] False show ?thesis by (simp add: bumps_def)
  qed
qed

lemma distinct_set_prop: "distinct (map fst m) \<Longrightarrow> distinct (map fst (set_prop m k v))"
  by (simp add: keys_set_prop)

lemma distinct_bump: "distinct (map fst m) \<Longrightarrow> distinct (map fst (bump m k))"
  by (simp add: bump_def distinct_set_prop split: option.splits counter.splits)

lemma distinct_bumps: "distinct (map fst m) \<Longrightarrow> distinct (map fst (bumps m ks))"
  unfolding bumps_def by (induction ks arbitrary: m) (auto simp: distinct_bump)

lemma commonPaths_plain:
  assumes "k \<notin> set object_prototype_names"
  shows "map_of (commonPaths (stats_of specs)) k =
     (if k \<in> set (map pathPattern (all_paths specs))
      then Some (CNum (length (filter (\<lambda>p. pathPattern p = k) (all_paths specs)))) else None)"
proof -
  let ?ks = "map pathPattern (all_paths specs)"
  have "map_of ([] :: (string \<times> counter) list) k = (if (0::nat) = 0 then None else Some (CNum 0))"
    by simp
  from map_of_bumps_plain [OF assms this, of ?ks]
  have m: "map_of (bumps [] ?ks) k =
     (if length (filter (\<lambda>x. x = k) ?ks) = 0 then None
      else Some (CNum (length (filter (\<lambda>x. x = k) ?ks))))"
    by simp
  have n: "length (filter (\<lambda>x. x = k) ?ks) = length (filter (\<lambda>p. pathPattern p = k) (all_paths specs))"
    by (simp add: filter_map comp_def)
  have c: "commonPaths (stats_of specs) = bumps [] ?ks" by (simp add: stats_of_def)
  show ?thesis unfolding c m n by (auto simp: filter_empty_conv)
qed

lemma map_of_bumps_absent: "k \<notin> set ks \<Longrightarrow> map_of (bumps m ks) k = map_of m k"
  unfolding bumps_def by (induction ks arbitrary: m) (auto simp: map_of_bump_other)

lemma starts_with_slash: "starts_with p ''/'' \<Longrightarrow> \<exists>cs. p = CHR ''/'' # cs"
  by (cases p) auto

lemma commonPaths_slash:
  assumes "list_all (\<lambda>p. starts_with p ''/'') (all_paths specs)"
  shows "map_of (commonPaths (stats_of specs)) k =
     (if k \<in> set (map pathPattern (all_paths specs))
      then Some (CNum (length (filter (\<lambda>p. pathPattern p = k) (all_paths specs)))) else None)"
proof (cases "k \<in> set object_prototype_names")
  case False
  then show ?thesis by (rule commonPaths_plain)
next
  case True
  have "k \<notin> set (map pathPattern (all_paths specs))"
  proof
    assume "k \<in> set (map pathPattern (all_paths specs))"
    then obtain p where p: "p \<in> set (all_paths specs)" and k: "k = pathPattern p" by auto
    from p assms have "starts_with p ''/''" by (simp add: list_all_iff)
    from starts_with_slash [OF this] obtain cs where "p = CHR ''/'' # cs" ..
    with k pathPattern_slash [of cs] True show False by simp
  qed
  moreover from this have "map_of (commonPaths (stats_of specs)) k = None"
    by (simp add: stats_of_def map_of_bumps_absent)
  ultimately show ?thesis by simp
qed

text \<open>
  When no key names an inherited member, the counter object holds numbers only and is the
  tally of its keys.
\<close>

lemma map_of_numbered:
  "map_of (map (\<lambda>e. (fst e, CNum (snd e))) m) k = map_option CNum (map_of m k)"
  by (induction m) auto

lemma set_prop_numbered:
  "set_prop (map (\<lambda>e. (fst e, CNum (snd e))) m) k (CNum v)
     = map (\<lambda>e. (fst e, CNum (snd e))) (set_prop m k v)"
  by (induction m k v rule: set_prop.induct) auto

lemma bump_numbered:
  "k \<notin> set object_prototype_names \<Longrightarrow>
   bump (map (\<lambda>e. (fst e, CNum (snd e))) m) k = map (\<lambda>e. (fst e, CNum (snd e))) (increment m k)"
  by (cases "map_of m k")
     (simp_all add: bump_def increment_def count_of_def map_of_numbered set_prop_numbered)

lemma bumps_numbered:
  "list_all (\<lambda>k. k \<notin> set object_prototype_names) ks \<Longrightarrow>
   bumps (map (\<lambda>e. (fst e, CNum (snd e))) m) ks = map (\<lambda>e. (fst e, CNum (snd e))) (tally m ks)"
  unfolding bumps_def tally_def
  by (induction ks arbitrary: m) (simp_all add: bump_numbered)

lemma versions_numbered:
  assumes "list_all (\<lambda>s. version_key s \<notin> set object_prototype_names) specs"
  shows "versions (stats_of specs)
     = map (\<lambda>e. (fst e, CNum (snd e))) (tally [] (map version_key specs))"
proof -
  have "list_all (\<lambda>k. k \<notin> set object_prototype_names) (map version_key specs)"
    using assms by (simp add: list_all_iff)
  from bumps_numbered [OF this, of "[]"] show ?thesis by (simp add: stats_of_def)
qed
lemma list_endpointCount:
  "distinct (map fst (paths_of s)) \<Longrightarrow> s_endpointCount (summary_of s) = distinct_path_count s"
proof -
  assume d: "distinct (map fst (paths_of s))"
  have "s_endpointCount (summary_of s) = length (map fst (paths_of s))"
    by (simp add: summary_of_def paths_of_def split: option.splits)
  also have "\<dots> = card (set (map fst (paths_of s)))"
    using d by (simp only: distinct_card)
  finally show ?thesis by (simp only: distinct_path_count_def)
qed

lemma list_endpointCounts:
  "list_all (\<lambda>s. distinct (map fst (paths_of s))) specs \<Longrightarrow>
     map s_endpointCount (listAllSpecs specs) = map distinct_path_count specs"
  by (induction specs) (simp_all add: listAllSpecs_def list_endpointCount)

lemma no_paths_counts:
  "paths s = None \<Longrightarrow> s_endpointCount (summary_of s) = 0 \<and> distinct_path_count s = 0"
  by (simp add: summary_of_def distinct_path_count_def paths_of_def)

lemma stats_endpointCounts:
  "map a_endpointCount (apis (stats_of specs)) = map (\<lambda>s. length (endpoint_pairs s)) specs"
  by (simp add: stats_of_def api_entry_def comp_def)

text \<open>
  C1. The two endpoint counts hold side by side on every registry. In
  \<^verbatim>\<open>listAllSpecs\<close> the \<^verbatim>\<open>endpointCount\<close> of a summary is the number of distinct
  keys of the spec's \<^verbatim>\<open>paths\<close> map, whatever the number of methods under a key, and 0
  when the map is absent (the keys of an object are distinct). In \<^verbatim>\<open>getApiStats\<close>,
  which returns whenever no path item is \<^verbatim>\<open>null\<close>, the \<^verbatim>\<open>endpointCount\<close> of the
  entry of a spec in \<^verbatim>\<open>apis\<close> is the number of its (path, method) pairs whose method
  is one of GET, POST, PUT, DELETE, PATCH, OPTIONS, HEAD in any case.
\<close>

theorem endpoint_counts:
  "(list_all (\<lambda>s. distinct (map fst (paths_of s))) specs \<longrightarrow>
      map s_endpointCount (listAllSpecs specs) = map distinct_path_count specs)
   \<and> (paths s = None \<longrightarrow> s_endpointCount (summary_of s) = 0 \<and> distinct_path_count s = 0)
   \<and> (list_all items_ok specs \<longrightarrow>
        (\<exists>st. getApiStats specs = Inr st \<and>
           map a_endpointCount (apis st) = map (\<lambda>s. length (endpoint_pairs s)) specs))"
proof -
  have c: "list_all items_ok specs \<longrightarrow>
        (\<exists>st. getApiStats specs = Inr st \<and>
           map a_endpointCount (apis st) = map (\<lambda>s. length (endpoint_pairs s)) specs)"
    using stats_endpointCounts [of specs] by (simp add: getApiStats_value)
  from list_endpointCounts [of specs] no_paths_counts [of s] c show ?thesis by blast
qed



theorem endpoint_counts_witness:
  "list_all (\<lambda>s. distinct (map fst (paths_of s))) [test_api]
   \<and> map s_endpointCount (listAllSpecs [test_api]) = [2]
   \<and> paths (document_only ''x.json'' []) = None
   \<and> s_endpointCount (summary_of (document_only ''x.json'' [])) = 0
   \<and> list_all items_ok [test_api]
   \<and> (\<exists>st. getApiStats [test_api] = Inr st \<and> map a_endpointCount (apis st) = [3])"
proof -
  have d: "list_all (\<lambda>s. distinct (map fst (paths_of s))) [test_api]" by code_simp
  have ok: "list_all items_ok [test_api]" by code_simp
  have n: "paths (document_only ''x.json'' []) = None" by code_simp
  have c: "map distinct_path_count [test_api] = [2]" by code_simp
  have e: "map (\<lambda>s. length (endpoint_pairs s)) [test_api] = [3]" by code_simp
  note th = endpoint_counts [of "[test_api]" "document_only ''x.json'' []"]
  have "map s_endpointCount (listAllSpecs [test_api]) = map distinct_path_count [test_api]"
    by (rule mp [OF conjunct1 [OF th] d])
  then have 1: "map s_endpointCount (listAllSpecs [test_api]) = [2]"
    by (rule trans) (rule c)
  have 2: "s_endpointCount (summary_of (document_only ''x.json'' [])) = 0"
    by (rule conjunct1 [OF mp [OF conjunct1 [OF conjunct2 [OF th]] n]])
  have "\<exists>st. getApiStats [test_api] = Inr st \<and>
      map a_endpointCount (apis st) = map (\<lambda>s. length (endpoint_pairs s)) [test_api]"
    by (rule mp [OF conjunct2 [OF conjunct2 [OF th]] ok])
  then obtain st where s: "getApiStats [test_api] = Inr st"
    and a: "map a_endpointCount (apis st) = map (\<lambda>s. length (endpoint_pairs s)) [test_api]"
    by (elim exE conjE)
  have "map a_endpointCount (apis st) = [3]"
    by (rule trans [OF a e])
  with s have 3: "\<exists>st. getApiStats [test_api] = Inr st \<and> map a_endpointCount (apis st) = [3]"
    by (intro exI conjI)
  show ?thesis
    by (intro conjI) (rule d 1 n 2 ok 3)+
qed

text \<open>
  C4. Whenever \<^verbatim>\<open>getApiStats\<close> returns, the values of \<^verbatim>\<open>methodCounts\<close>, one per
  verb, add up to \<^verbatim>\<open>totalEndpoints\<close>; it returns on every registry without a
  \<^verbatim>\<open>null\<close> path item.
\<close>

theorem method_counts_total:
  "(getApiStats specs = Inr st \<longrightarrow>
      sum_list (map snd (methodCounts st)) = totalEndpoints st \<and> distinct (map fst (methodCounts st)))
   \<and> (list_all items_ok specs \<longrightarrow> (\<exists>st. getApiStats specs = Inr st))"
proof (intro conjI impI)
  assume "getApiStats specs = Inr st"
  then have st: "st = stats_of specs" by (rule getApiStats_returns)
  show "sum_list (map snd (methodCounts st)) = totalEndpoints st"
    unfolding st by (rule methodCounts_sum)
  show "distinct (map fst (methodCounts st))"
    unfolding st by (simp add: stats_of_def distinct_tally)
next
  assume "list_all items_ok specs"
  then show "\<exists>st. getApiStats specs = Inr st" by (simp add: getApiStats_value)
qed

theorem method_counts_total_witness:
  "list_all items_ok [spec_a, spec_b]
   \<and> (\<exists>st. getApiStats [spec_a, spec_b] = Inr st
         \<and> methodCounts st = [(''GET'', 2), (''POST'', 1)]
         \<and> totalEndpoints st = 3
         \<and> sum_list (map snd (methodCounts st)) = totalEndpoints st)"
proof -
  let ?specs = "[spec_a, spec_b]"
  have ok: "list_all items_ok ?specs" by code_simp
  have r: "getApiStats ?specs = Inr (stats_of ?specs)"
    using ok by (simp only: getApiStats_value if_True)
  have m: "methodCounts (stats_of ?specs) = [(''GET'', 2), (''POST'', 1)]" by code_simp
  have t: "totalEndpoints (stats_of ?specs) = 3" by code_simp
  note th = method_counts_total [of ?specs "stats_of ?specs"]
  have s: "sum_list (map snd (methodCounts (stats_of ?specs))) = totalEndpoints (stats_of ?specs)"
    by (rule conjunct1 [OF mp [OF conjunct1 [OF th] r]])
  from r m t s have "\<exists>st. getApiStats ?specs = Inr st
         \<and> methodCounts st = [(''GET'', 2), (''POST'', 1)]
         \<and> totalEndpoints st = 3
         \<and> sum_list (map snd (methodCounts st)) = totalEndpoints st"
    by (intro exI conjI)
  with ok show ?thesis by (intro conjI)
qed

text \<open>
  When no version names a member that \<^verbatim>\<open>{}\<close> inherits, \<^verbatim>\<open>versions\<close> holds numbers
  that add up to \<^verbatim>\<open>totalApis\<close>.
\<close>

lemma versions_total_plain:
  assumes "getApiStats specs = Inr st"
    and "list_all (\<lambda>s. version_key s \<notin> set object_prototype_names) specs"
  shows "\<exists>m. versions st = map (\<lambda>e. (fst e, CNum (snd e))) m
           \<and> sum_list (map snd m) = totalApis st"
proof -
  from assms(1) have st: "st = stats_of specs" by (rule getApiStats_returns)
  let ?m = "tally [] (map version_key specs)"
  have "versions st = map (\<lambda>e. (fst e, CNum (snd e))) ?m"
    unfolding st using assms(2) by (rule versions_numbered)
  moreover have "sum_list (map snd ?m) = totalApis st"
    unfolding st by (simp add: sum_tally stats_of_def)
  ultimately show ?thesis by blast
qed

text \<open>
  C10 fails on the code. \<^verbatim>\<open>versions\<close> starts as \<^verbatim>\<open>{}\<close>, and
  \<^verbatim>\<open>stats.versions[version] || 0\<close> reads an inherited member when the version string
  names one. For the registry of one spec whose \<^verbatim>\<open>info.version\<close> is
  \<^verbatim>\<open>constructor\<close>, the read gives the function \<^verbatim>\<open>Object\<close>, and adding 1 to it
  gives a string: \<^verbatim>\<open>getApiStats\<close> returns \<^verbatim>\<open>totalApis\<close> 1 and a \<^verbatim>\<open>versions\<close>
  object whose only value is the text of that function followed by the character
  \<^verbatim>\<open>1\<close>, not the number 1, so the values do not add up to \<^verbatim>\<open>totalApis\<close>.
\<close>

theorem versions_inherited_member:
  "getApiStats [constructor_api] =
     Inr \<lparr> totalApis = 1, totalEndpoints = 1, methodCounts = [(''GET'', 1)],
           commonPaths = [(''/c'', CNum 1)],
           versions = [(''constructor'', CStr ''function Object() { [native code] }1'')],
           apis = [\<lparr> a_filename = ''c.json'', a_title = Some ''C'',
                     a_version = Some ''constructor'', a_endpointCount = 1,
                     a_methods = [''GET''] \<rparr>] \<rparr>"
  by code_simp

text \<open>
  C5. The key of a path in \<^verbatim>\<open>commonPaths\<close> is the path with every parameter token
  \<^verbatim>\<open>{name}\<close> replaced by \<^verbatim>\<open>{id}\<close>: a template of literal text and parameters is
  mapped to the same template with every parameter named \<^verbatim>\<open>id\<close>, so templates that
  differ in parameter names only get one key, and paths that differ before their first
  opening brace get different keys. Whenever \<^verbatim>\<open>getApiStats\<close> returns, the keys of
  \<^verbatim>\<open>commonPaths\<close> are distinct, and under every key that does not name a member
  inherited by \<^verbatim>\<open>{}\<close> the value is the number of (spec, path) pairs whose path has
  that key, the key being absent when there is none. The key of a path with a leading
  slash, as OpenAPI has them, names no inherited member: when every path of the registry
  has one, the values are these numbers under every key. \<^verbatim>\<open>getApiStats\<close> returns on
  every registry without a \<^verbatim>\<open>null\<close> path item. A spec with the paths \<^verbatim>\<open>/a/{x}\<close>
  and \<^verbatim>\<open>/a/{y}\<close> has the one entry \<^verbatim>\<open>/a/{id}\<close> with the count 2.
\<close>

theorem common_paths:
  "(list_all segment_ok t \<longrightarrow> pathPattern (render t) = render (map rename_param t))
   \<and> (list_all segment_ok t1 \<and> list_all segment_ok t2 \<and> map rename_param t1 = map rename_param t2 \<longrightarrow>
        pathPattern (render t1) = pathPattern (render t2))
   \<and> (takeWhile (\<lambda>c. c \<noteq> CHR ''{'') p \<noteq> takeWhile (\<lambda>c. c \<noteq> CHR ''{'') q \<longrightarrow>
        pathPattern p \<noteq> pathPattern q)
   \<and> (getApiStats specs = Inr st \<longrightarrow>
        distinct (map fst (commonPaths st))
        \<and> (k \<notin> set object_prototype_names \<longrightarrow>
             map_of (commonPaths st) k =
               (if k \<in> set (map pathPattern (all_paths specs))
                then Some (CNum (length (filter (\<lambda>p. pathPattern p = k) (all_paths specs))))
                else None)))
   \<and> pathPattern (CHR ''/'' # cs) \<notin> set object_prototype_names
   \<and> (getApiStats specs = Inr st \<and> list_all (\<lambda>p. starts_with p ''/'') (all_paths specs) \<longrightarrow>
        map_of (commonPaths st) k' =
          (if k' \<in> set (map pathPattern (all_paths specs))
           then Some (CNum (length (filter (\<lambda>p. pathPattern p = k') (all_paths specs))))
           else None))
   \<and> (list_all items_ok specs \<longrightarrow> (\<exists>st. getApiStats specs = Inr st))
   \<and> (\<exists>st. getApiStats [braces_api] = Inr st \<and> commonPaths st = [(''/a/{id}'', CNum 2)])"
proof (intro conjI impI)
  assume "list_all segment_ok t"
  then show "pathPattern (render t) = render (map rename_param t)"
    by (rule pathPattern_render)
next
  assume h: "list_all segment_ok t1 \<and> list_all segment_ok t2 \<and> map rename_param t1 = map rename_param t2"
  then have "pathPattern (render t1) = render (map rename_param t1)"
    and "pathPattern (render t2) = render (map rename_param t2)"
    by (simp_all add: pathPattern_render)
  with h show "pathPattern (render t1) = pathPattern (render t2)" by simp
next
  assume "takeWhile (\<lambda>c. c \<noteq> CHR ''{'') p \<noteq> takeWhile (\<lambda>c. c \<noteq> CHR ''{'') q"
  then show "pathPattern p \<noteq> pathPattern q"
    using pathPattern_head [of p] pathPattern_head [of q] by metis
next
  assume "getApiStats specs = Inr st"
  then have st: "st = stats_of specs" by (rule getApiStats_returns)
  show "distinct (map fst (commonPaths st))"
    unfolding st by (simp add: stats_of_def distinct_bumps)
next
  assume "getApiStats specs = Inr st"
  then have st: "st = stats_of specs" by (rule getApiStats_returns)
  assume "k \<notin> set object_prototype_names"
  then show "map_of (commonPaths st) k =
      (if k \<in> set (map pathPattern (all_paths specs))
       then Some (CNum (length (filter (\<lambda>p. pathPattern p = k) (all_paths specs))))
       else None)"
    unfolding st by (rule commonPaths_plain)
next
  show "pathPattern (CHR ''/'' # cs) \<notin> set object_prototype_names"
    by (rule pathPattern_slash)
next
  assume h: "getApiStats specs = Inr st \<and> list_all (\<lambda>p. starts_with p ''/'') (all_paths specs)"
  then have st: "st = stats_of specs" by (auto dest: getApiStats_returns)
  from h show "map_of (commonPaths st) k' =
      (if k' \<in> set (map pathPattern (all_paths specs))
       then Some (CNum (length (filter (\<lambda>p. pathPattern p = k') (all_paths specs))))
       else None)"
    unfolding st by (intro commonPaths_slash) simp
next
  assume "list_all items_ok specs"
  then show "\<exists>st. getApiStats specs = Inr st" by (simp add: getApiStats_value)
next
  have ok: "list_all items_ok [braces_api]" by code_simp
  have v: "commonPaths (stats_of [braces_api]) = [(''/a/{id}'', CNum 2)]" by code_simp
  have r: "getApiStats [braces_api] = Inr (stats_of [braces_api])"
    using ok by (simp only: getApiStats_value if_True)
  from r v show "\<exists>st. getApiStats [braces_api] = Inr st \<and> commonPaths st = [(''/a/{id}'', CNum 2)]"
    by (intro exI conjI)
qed

theorem common_paths_witness:
  "list_all segment_ok [Lit ''/users/'', Param ''userId'', Lit ''/posts/'', Param ''postId'']
   \<and> pathPattern (render [Lit ''/users/'', Param ''userId'', Lit ''/posts/'', Param ''postId''])
       = ''/users/{id}/posts/{id}''
   \<and> list_all segment_ok [Lit ''/users/'', Param ''userId'']
   \<and> list_all segment_ok [Lit ''/users/'', Param ''id'']
   \<and> pathPattern (render [Lit ''/users/'', Param ''userId''])
       = pathPattern (render [Lit ''/users/'', Param ''id''])
   \<and> pathPattern ''/users/{id}'' \<noteq> pathPattern ''/products/{id}''
   \<and> list_all items_ok [test_api, braces_api]
   \<and> ''/a/{id}'' \<notin> set object_prototype_names
   \<and> (\<exists>st. getApiStats [test_api, braces_api] = Inr st
         \<and> map_of (commonPaths st) ''/a/{id}'' = Some (CNum 2))
   \<and> list_all (\<lambda>p. starts_with p ''/'') (all_paths [test_api, braces_api])
   \<and> (\<exists>st. getApiStats [test_api, braces_api] = Inr st
         \<and> map_of (commonPaths st) ''toString'' = None)"
proof -
  let ?t = "[Lit ''/users/'', Param ''userId'', Lit ''/posts/'', Param ''postId'']"
  let ?t1 = "[Lit ''/users/'', Param ''userId'']"
  let ?t2 = "[Lit ''/users/'', Param ''id'']"
  let ?specs = "[test_api, braces_api]"
  have t: "list_all segment_ok ?t" by code_simp
  have t1: "list_all segment_ok ?t1" by code_simp
  have t2: "list_all segment_ok ?t2" by code_simp
  have same: "map rename_param ?t1 = map rename_param ?t2" by code_simp
  have pq: "takeWhile (\<lambda>c. c \<noteq> CHR ''{'') ''/users/{id}'' \<noteq>
      takeWhile (\<lambda>c. c \<noteq> CHR ''{'') ''/products/{id}''" by code_simp
  have ok: "list_all items_ok ?specs" by code_simp
  have own: "''/a/{id}'' \<notin> set object_prototype_names" by code_simp
  have r: "getApiStats ?specs = Inr (stats_of ?specs)"
    using ok by (simp only: getApiStats_value if_True)
  have n: "(if ''/a/{id}'' \<in> set (map pathPattern (all_paths ?specs))
       then Some (CNum (length (filter (\<lambda>p. pathPattern p = ''/a/{id}'') (all_paths ?specs))))
       else None) = Some (CNum 2)" by code_simp
  have rt: "render (map rename_param ?t) = ''/users/{id}/posts/{id}''" by code_simp
  have sl: "list_all (\<lambda>p. starts_with p ''/'') (all_paths ?specs)" by code_simp
  have ts: "(if ''toString'' \<in> set (map pathPattern (all_paths ?specs))
       then Some (CNum (length (filter (\<lambda>p. pathPattern p = ''toString'') (all_paths ?specs))))
       else None) = None" by code_simp
  note th = common_paths [of ?t ?t1 ?t2 "''/users/{id}''" "''/products/{id}''" ?specs
      "stats_of ?specs" "''/a/{id}''" _ "''toString''"]
  have "pathPattern (render ?t) = render (map rename_param ?t)"
    by (rule mp [OF conjunct1 [OF th] t])
  then have 1: "pathPattern (render ?t) = ''/users/{id}/posts/{id}''"
    by (rule trans) (rule rt)
  have 2: "pathPattern (render ?t1) = pathPattern (render ?t2)"
    by (rule mp [OF conjunct1 [OF conjunct2 [OF th]]]) (intro conjI t1 t2 same)
  have 3: "pathPattern ''/users/{id}'' \<noteq> pathPattern ''/products/{id}''"
    by (rule mp [OF conjunct1 [OF conjunct2 [OF conjunct2 [OF th]]] pq])
  have "map_of (commonPaths (stats_of ?specs)) ''/a/{id}'' =
      (if ''/a/{id}'' \<in> set (map pathPattern (all_paths ?specs))
       then Some (CNum (length (filter (\<lambda>p. pathPattern p = ''/a/{id}'') (all_paths ?specs))))
       else None)"
    by (rule mp [OF conjunct2 [OF mp [OF conjunct1 [OF conjunct2 [OF conjunct2 [OF conjunct2 [OF th]]]] r]] own])
  then have "map_of (commonPaths (stats_of ?specs)) ''/a/{id}'' = Some (CNum 2)"
    by (rule trans) (rule n)
  with r have 4: "\<exists>st. getApiStats ?specs = Inr st
      \<and> map_of (commonPaths st) ''/a/{id}'' = Some (CNum 2)"
    by (intro exI conjI)
  have "map_of (commonPaths (stats_of ?specs)) ''toString'' =
      (if ''toString'' \<in> set (map pathPattern (all_paths ?specs))
       then Some (CNum (length (filter (\<lambda>p. pathPattern p = ''toString'') (all_paths ?specs))))
       else None)"
    by (rule mp [OF conjunct1 [OF conjunct2 [OF conjunct2 [OF conjunct2 [OF conjunct2
          [OF conjunct2 [OF th]]]]]] conjI [OF r sl]])
  then have "map_of (commonPaths (stats_of ?specs)) ''toString'' = None"
    by (rule trans) (rule ts)
  with r have 5: "\<exists>st. getApiStats ?specs = Inr st
      \<and> map_of (commonPaths st) ''toString'' = None"
    by (intro exI conjI)
  show ?thesis
    by (intro conjI) (rule t 1 t1 t2 2 3 ok own 4 sl 5)+
qed

section \<open>Authentication schemes\<close>

lemma foldl_concat_map:
  "foldl (\<lambda>acc x. foldl f acc (g x)) acc xs = foldl f acc (concat (map g xs))"
  by (induction xs arbitrary: acc) auto

lemma scheme_step_observed:
  "scheme_step fname m ns =
     (if snd ns \<noteq> JNull then Inr (foldl add_observed m (observed_scheme fname ns)) else Inl TypeError)"
  by (cases ns)
    (simp add: scheme_step_def js_get_def observed_scheme_def add_observed_def split: option.splits)

lemma auth_step_observed:
  "auth_step m s =
     (if schemes_ok s then Inr (foldl add_observed m (observed_in s)) else Inl TypeError)"
proof (cases "securitySchemes_of s")
  case None
  then show ?thesis
    by (simp add: auth_step_def schemes_ok_def schemes_of_def observed_in_def)
next
  case (Some v)
  show ?thesis
  proof (cases "truthy v")
    case False
    with Some show ?thesis
      by (simp add: auth_step_def schemes_ok_def schemes_of_def observed_in_def)
  next
    case True
    then have nn: "v \<noteq> JNull" by auto
    have "for_each (scheme_step (filename s)) (own_entries v) m =
        (if list_all (\<lambda>ns. snd ns \<noteq> JNull) (own_entries v)
         then Inr (foldl (\<lambda>acc ns. foldl add_observed acc (observed_scheme (filename s) ns)) m
                    (own_entries v))
         else Inl TypeError)"
      by (rule for_each_foldl) (rule scheme_step_observed)
    with Some True nn show ?thesis
      by (simp add: auth_step_def schemes_ok_def schemes_of_def observed_in_def js_entries_cases
          foldl_concat_map)
  qed
qed

lemma auth_loop:
  "for_each auth_step specs m =
     (if list_all schemes_ok specs then Inr (foldl add_observed m (observed specs)) else Inl TypeError)"
proof -
  have "for_each auth_step specs m =
      (if list_all schemes_ok specs
       then Inr (foldl (\<lambda>acc s. foldl add_observed acc (observed_in s)) m specs)
       else Inl TypeError)"
    by (rule for_each_foldl) (rule auth_step_observed)
  then show ?thesis by (simp add: foldl_concat_map observed_def)
qed

text \<open>A map whose keys are strings behaves as an association list.\<close>

lemma map_has_string:
  "is_string k \<Longrightarrow> map_has m k \<longleftrightarrow> k \<in> set (map fst m)"
  by (cases k) (auto simp: map_has_def list_ex_iff)

lemma keys_map_push: "map fst (map_push m k x) = map fst m"
  by (induction m k x rule: map_push.induct) auto

lemma map_of_map_push:
  "is_string k \<Longrightarrow> map_of m k = Some xs \<Longrightarrow>
     map_of (map_push m k x) = (map_of m)(k \<mapsto> xs @ [x])"
proof (induction m k x rule: map_push.induct)
  case (1 k x)
  then show ?case by simp
next
  case (2 k' ys m k x)
  then show ?case by (cases k) (auto simp: fun_upd_twist)
qed

lemma keys_map_note:
  "is_string k \<Longrightarrow>
     map fst (map_note m k x) = (if k \<in> set (map fst m) then map fst m else map fst m @ [k])"
  by (simp add: map_note_def map_has_string keys_map_push)

lemma map_of_map_note:
  assumes "is_string k"
  shows "map_of (map_note m k x) = (map_of m)(k \<mapsto> names_in m k @ [x])"
proof (cases "map_of m k")
  case None
  then have "k \<notin> set (map fst m)" by (simp add: map_of_eq_None_iff)
  with assms None show ?thesis
    by (auto simp: map_note_def map_has_string names_in_def fun_eq_iff Map.map_add_def
        split: option.splits)
next
  case (Some xs)
  then have "k \<in> set (map fst m)" by (metis map_of_eq_None_iff option.distinct(1) set_map)
  with assms Some show ?thesis
    by (simp add: map_note_def map_has_string names_in_def map_of_map_push)
qed

lemma names_add_observed:
  "is_string (fst ob) \<Longrightarrow>
     names_in (add_observed m ob) k = (if k = fst ob then names_in m k @ [snd ob] else names_in m k)"
  by (simp add: add_observed_def names_in_def map_of_map_note)

lemma keys_add_observed:
  "is_string (fst ob) \<Longrightarrow>
     map fst (add_observed m ob)
       = (if fst ob \<in> set (map fst m) then map fst m else map fst m @ [fst ob])"
  by (simp add: add_observed_def keys_map_note)

lemma keys_group:
  "list_all (\<lambda>ob. is_string (fst ob)) obs \<Longrightarrow>
     set (map fst (foldl add_observed m obs)) = set (map fst m) \<union> set (map fst obs)"
proof (induction obs arbitrary: m)
  case Nil
  show ?case by simp
next
  case (Cons ob obs)
  then have s: "is_string (fst ob)" and r: "list_all (\<lambda>ob. is_string (fst ob)) obs" by simp_all
  have "set (map fst (foldl add_observed m (ob # obs)))
      = set (map fst (add_observed m ob)) \<union> set (map fst obs)"
    using Cons.IH [OF r, of "add_observed m ob"] by simp
  also have "\<dots> = set (map fst m) \<union> set (map fst (ob # obs))"
    by (simp only: keys_add_observed [OF s]) auto
  finally show ?case .
qed

lemma distinct_group:
  "list_all (\<lambda>ob. is_string (fst ob)) obs \<Longrightarrow> distinct (map fst m) \<Longrightarrow>
     distinct (map fst (foldl add_observed m obs))"
proof (induction obs arbitrary: m)
  case Nil
  then show ?case by simp
next
  case (Cons ob obs)
  then have s: "is_string (fst ob)" and r: "list_all (\<lambda>ob. is_string (fst ob)) obs" by simp_all
  have "distinct (map fst (add_observed m ob))"
    using Cons.prems(2) by (simp only: keys_add_observed [OF s]) auto
  from Cons.IH [OF r this] show ?case by simp
qed

lemma names_group:
  "list_all (\<lambda>ob. is_string (fst ob)) obs \<Longrightarrow>
     names_in (foldl add_observed m obs) k
       = names_in m k @ map snd (filter (\<lambda>ob. fst ob = k) obs)"
proof (induction obs arbitrary: m)
  case Nil
  show ?case by simp
next
  case (Cons ob obs)
  then have s: "is_string (fst ob)" and r: "list_all (\<lambda>ob. is_string (fst ob)) obs" by simp_all
  have "names_in (foldl add_observed m (ob # obs)) k
      = names_in (add_observed m ob) k @ map snd (filter (\<lambda>ob. fst ob = k) obs)"
    using Cons.IH [OF r, of "add_observed m ob"] by simp
  also have "\<dots> = names_in m k @ map snd (filter (\<lambda>ob. fst ob = k) (ob # obs))"
    by (simp only: names_add_observed [OF s]) auto
  finally show ?case .
qed

lemma set_prop_fresh: "k \<notin> set (map fst obj) \<Longrightarrow> set_prop obj k v = obj @ [(k, v)]"
  by (induction obj k v rule: set_prop.induct) auto

lemma to_string_string: "is_string a \<Longrightarrow> js_to_string a = Inr (string_of a)"
  by (cases a) simp_all

lemma string_of_inj: "is_string a \<Longrightarrow> is_string b \<Longrightarrow> string_of a = string_of b \<Longrightarrow> a = b"
  by (cases a; cases b) simp_all

lemma printed_keys_distinct:
  "list_all (\<lambda>e. is_string (fst e)) m \<Longrightarrow> distinct (map fst m) \<Longrightarrow>
     distinct (map fst (printed m))"
proof (induction m)
  case Nil
  show ?case by (simp add: printed_def)
next
  case (Cons e m)
  then have "string_of (fst e) \<notin> set (map fst (printed m))"
    by (auto simp: printed_def list_all_iff dest!: string_of_inj)
  with Cons show ?case by (simp add: printed_def)
qed

lemma entry_step_string:
  "is_string (fst e) \<Longrightarrow> entry_step obj e = Inr (set_prop obj (string_of (fst e)) (snd e))"
  by (simp add: entry_step_def to_string_string)

lemma fromEntries_fold:
  "list_all (\<lambda>e. is_string (fst e)) m \<Longrightarrow> distinct (map fst (acc @ printed m)) \<Longrightarrow>
     for_each entry_step m acc = Inr (acc @ printed m)"
proof (induction m arbitrary: acc)
  case Nil
  show ?case by (simp add: printed_def)
next
  case (Cons e m)
  from Cons.prems(1) have s: "is_string (fst e)" and r: "list_all (\<lambda>e. is_string (fst e)) m"
    by simp_all
  have f: "string_of (fst e) \<notin> set (map fst acc)"
    using Cons.prems(2) by (auto simp: printed_def)
  have d: "distinct (map fst ((acc @ [(string_of (fst e), snd e)]) @ printed m))"
    using Cons.prems(2) by (simp add: printed_def)
  have "for_each entry_step (e # m) acc = for_each entry_step m (acc @ [(string_of (fst e), snd e)])"
    by (simp add: entry_step_string [OF s] set_prop_fresh [OF f])
  also have "\<dots> = Inr ((acc @ [(string_of (fst e), snd e)]) @ printed m)"
    by (rule Cons.IH [OF r d])
  finally show ?case by (simp add: printed_def)
qed

lemma fromEntries_printed:
  "list_all (\<lambda>e. is_string (fst e)) m \<Longrightarrow> distinct (map fst m) \<Longrightarrow>
     fromEntries m = Inr (printed m)"
  using fromEntries_fold [of m "[]"] printed_keys_distinct [of m]
  by (simp add: fromEntries_def)

lemma map_of_printed:
  "list_all (\<lambda>e. is_string (fst e)) m \<Longrightarrow> map_of (printed m) t = map_of m (JStr t)"
proof (induction m)
  case Nil
  show ?case by (simp add: printed_def)
next
  case (Cons e m)
  then have "is_string (fst e)" by simp
  then obtain s where "fst e = JStr s" by (cases "fst e") simp_all
  with Cons show ?case by (cases e) (simp add: printed_def)
qed

lemma findInconsistencies_value:
  "findInconsistencies specs =
     (if list_all schemes_ok specs then
        (if 1 < length (foldl add_observed [] (observed specs))
         then (case fromEntries (foldl add_observed [] (observed specs)) of
                 Inl e \<Rightarrow> Inl e | Inr d \<Rightarrow> Inr [auth_record d])
         else Inr [])
      else Inl TypeError)"
  by (simp add: findInconsistencies_def auth_loop auth_record_def split: sum.splits)

lemma group_facts:
  assumes s: "list_all (\<lambda>ob. is_string (fst ob)) (observed specs)"
  defines "g \<equiv> foldl add_observed [] (observed specs)"
  shows "distinct (map fst g)"
    and "set (map fst g) = observed_types specs"
    and "length g = card (observed_types specs)"
    and "list_all (\<lambda>e. is_string (fst e)) g"
    and "map_of g k = (if k \<in> observed_types specs then Some (names_of_type specs k) else None)"
proof -
  show d: "distinct (map fst g)"
    unfolding g_def using s by (rule distinct_group) simp
  show k: "set (map fst g) = observed_types specs"
    unfolding g_def observed_types_def using keys_group [OF s, of "[]"] by simp
  have "length g = length (map fst g)" by simp
  also have "\<dots> = card (set (map fst g))" using d by (simp only: distinct_card)
  finally show "length g = card (observed_types specs)" by (simp only: k)
  have "\<forall>e \<in> set g. is_string (fst e)"
  proof
    fix e assume "e \<in> set g"
    then have "fst e \<in> set (map fst g)" by simp
    then have "fst e \<in> set (map fst (observed specs))" by (simp only: k observed_types_def)
    with s show "is_string (fst e)" by (auto simp: list_all_iff)
  qed
  then show "list_all (\<lambda>e. is_string (fst e)) g" by (simp add: list_all_iff)
  have n: "names_in g k = names_of_type specs k"
    unfolding g_def using names_group [OF s, of "[]" k]
    by (simp add: names_in_def names_of_type_def)
  show "map_of g k = (if k \<in> observed_types specs then Some (names_of_type specs k) else None)"
  proof (cases "map_of g k")
    case None
    then have "k \<notin> set (map fst g)" by (simp add: map_of_eq_None_iff)
    with None k show ?thesis by simp
  next
    case (Some xs)
    then have "k \<in> set (map fst g)" by (metis map_of_eq_None_iff option.distinct(1) set_map)
    moreover from Some n have "xs = names_of_type specs k" by (simp add: names_in_def)
    ultimately show ?thesis using Some k by simp
  qed
qed

text \<open>
  C7. Let no entry of a \<^verbatim>\<open>securitySchemes\<close> map be \<^verbatim>\<open>null\<close> and let every
  \<^verbatim>\<open>type\<close> met be a string. When at most one distinct type is met in the whole
  registry, \<^verbatim>\<open>findInconsistencies\<close> returns the empty sequence. When two or more are
  met, it returns exactly one record, of type \<^verbatim>\<open>authentication\<close>, whose details have
  one key per type met and under each type the qualified names \<^verbatim>\<open>filename: name\<close> of
  the schemes of that type, in the order met, and nothing under any other key.
\<close>

theorem auth_inconsistencies:
  "list_all schemes_ok specs \<and> list_all (\<lambda>ob. is_string (fst ob)) (observed specs) \<longrightarrow>
     (card (observed_types specs) \<le> 1 \<longrightarrow> findInconsistencies specs = Inr [])
     \<and> (2 \<le> card (observed_types specs) \<longrightarrow>
          (\<exists>d. findInconsistencies specs = Inr [auth_record d]
             \<and> distinct (map fst d)
             \<and> (\<forall>t. map_of d t =
                   (if JStr t \<in> observed_types specs
                    then Some (names_of_type specs (JStr t)) else None))))"
proof (intro impI conjI)
  assume h: "list_all schemes_ok specs \<and> list_all (\<lambda>ob. is_string (fst ob)) (observed specs)"
  then have ok: "list_all schemes_ok specs"
    and s: "list_all (\<lambda>ob. is_string (fst ob)) (observed specs)" by simp_all
  let ?g = "foldl add_observed [] (observed specs)"
  note g = group_facts [OF s]
  {
    assume "card (observed_types specs) \<le> 1"
    then have "\<not> 1 < length ?g" by (simp add: g(3))
    with ok show "findInconsistencies specs = Inr []"
      by (simp add: findInconsistencies_value)
  }
  {
    assume "2 \<le> card (observed_types specs)"
    then have "1 < length ?g" by (simp add: g(3))
    have p: "fromEntries ?g = Inr (printed ?g)"
      using g(4) g(1) by (rule fromEntries_printed)
    from ok \<open>1 < length ?g\<close> have r: "findInconsistencies specs = Inr [auth_record (printed ?g)]"
      by (simp add: findInconsistencies_value p)
    have d: "distinct (map fst (printed ?g))"
      using g(4) g(1) by (rule printed_keys_distinct)
    have m: "\<forall>t. map_of (printed ?g) t =
        (if JStr t \<in> observed_types specs then Some (names_of_type specs (JStr t)) else None)"
      by (simp only: map_of_printed [OF g(4)] g(5)) simp
    from r d m show "\<exists>d. findInconsistencies specs = Inr [auth_record d]
             \<and> distinct (map fst d)
             \<and> (\<forall>t. map_of d t =
                   (if JStr t \<in> observed_types specs
                    then Some (names_of_type specs (JStr t)) else None))"
      by blast
  }
qed

theorem auth_inconsistencies_witness:
  "list_all schemes_ok [api1, api2]
   \<and> list_all (\<lambda>ob. is_string (fst ob)) (observed [api1, api2])
   \<and> 2 \<le> card (observed_types [api1, api2])
   \<and> (\<exists>d. findInconsistencies [api1, api2] = Inr [auth_record d]
         \<and> map_of d ''http'' = Some [''api1.json: bearerAuth'']
         \<and> map_of d ''apiKey'' = Some [''api2.json: apiKey''])
   \<and> list_all schemes_ok [api1, api3]
   \<and> list_all (\<lambda>ob. is_string (fst ob)) (observed [api1, api3])
   \<and> card (observed_types [api1, api3]) \<le> 1
   \<and> findInconsistencies [api1, api3] = Inr []"
proof -
  have a1: "list_all schemes_ok [api1, api2]" by code_simp
  have a2: "list_all (\<lambda>ob. is_string (fst ob)) (observed [api1, api2])" by code_simp
  have a3: "2 \<le> card (observed_types [api1, api2])" by code_simp
  have a4: "(if JStr ''http'' \<in> observed_types [api1, api2]
        then Some (names_of_type [api1, api2] (JStr ''http'')) else None)
      = Some [''api1.json: bearerAuth'']" by code_simp
  have a5: "(if JStr ''apiKey'' \<in> observed_types [api1, api2]
        then Some (names_of_type [api1, api2] (JStr ''apiKey'')) else None)
      = Some [''api2.json: apiKey'']" by code_simp
  have b1: "list_all schemes_ok [api1, api3]" by code_simp
  have b2: "list_all (\<lambda>ob. is_string (fst ob)) (observed [api1, api3])" by code_simp
  have b3: "card (observed_types [api1, api3]) \<le> 1" by code_simp
  note tha = mp [OF auth_inconsistencies [of "[api1, api2]"] conjI [OF a1 a2]]
  note thb = mp [OF auth_inconsistencies [of "[api1, api3]"] conjI [OF b1 b2]]
  from mp [OF conjunct2 [OF tha] a3] obtain d
    where r: "findInconsistencies [api1, api2] = Inr [auth_record d]"
      and m: "\<forall>t. map_of d t =
                   (if JStr t \<in> observed_types [api1, api2]
                    then Some (names_of_type [api1, api2] (JStr t)) else None)"
    by (elim exE conjE)
  have m1: "map_of d ''http'' = Some [''api1.json: bearerAuth'']"
    by (rule trans [OF spec [OF m] a4])
  have m2: "map_of d ''apiKey'' = Some [''api2.json: apiKey'']"
    by (rule trans [OF spec [OF m] a5])
  from r m1 m2 have c: "\<exists>d. findInconsistencies [api1, api2] = Inr [auth_record d]
         \<and> map_of d ''http'' = Some [''api1.json: bearerAuth'']
         \<and> map_of d ''apiKey'' = Some [''api2.json: apiKey'']"
    by (intro exI conjI)
  have e: "findInconsistencies [api1, api3] = Inr []"
    by (rule mp [OF conjunct1 [OF thb] b3])
  show ?thesis
    by (intro conjI) (rule a1 a2 a3 c b1 b2 b3 e)+
qed

section \<open>Schema comparison\<close>

lemma compare_name_records:
  "truthy sch \<Longrightarrow> schemas_of s = Some sch \<Longrightarrow>
     compare_name s sch acc n = acc @ schema_records s n"
  by (simp add: compare_name_def schema_records_def split: option.splits)

lemma compare_names:
  "truthy sch \<Longrightarrow> schemas_of s = Some sch \<Longrightarrow>
     foldl (compare_name s sch) acc ns = acc @ concat (map (schema_records s) ns)"
  by (induction ns arbitrary: acc) (simp_all add: compare_name_records)

lemma compare_spec_records:
  "compare_spec ns acc s = acc @ concat (map (schema_records s) ns)"
proof (cases "schemas_of s")
  case None
  then show ?thesis by (simp add: compare_spec_def schema_records_def)
next
  case (Some sch)
  show ?thesis
  proof (cases "truthy sch")
    case True
    with Some show ?thesis by (simp add: compare_spec_def compare_names)
  next
    case False
    with Some show ?thesis by (simp add: compare_spec_def schema_records_def)
  qed
qed

lemma compare_specs:
  "foldl (compare_spec ns) acc specs
     = acc @ concat (map (\<lambda>s. concat (map (schema_records s) ns)) specs)"
  by (induction specs arbitrary: acc) (simp_all add: compare_spec_records)

lemma compareSchemas_single:
  "compareSchemas specs n [] = concat (map (\<lambda>s. schema_records s n) specs)"
  by (simp add: compareSchemas_def compare_specs)

lemma compareSchemas_pair:
  "n2 \<noteq> [] \<Longrightarrow>
     compareSchemas specs n1 n2 = concat (map (\<lambda>s. schema_records s n1 @ schema_records s n2) specs)"
  by (simp add: compareSchemas_def compare_specs)

lemma schema_records_at_most_one: "length (schema_records s n) \<le> 1"
  by (simp add: schema_records_def split: option.splits)

lemma compare_schemas_tool_default:
  "arg_schema1 a = Some n \<Longrightarrow> n \<noteq> [] \<Longrightarrow> arg_schema2 a = None \<Longrightarrow>
     call_tool analyzer Compare_schemas (Some a)
       = Pretty (Comparisons
           (concat (map (\<lambda>s. schema_records s n @ schema_records s n) (an_specs analyzer))))"
  by (simp add: call_tool_def or_default_def compareSchemas_pair)

text \<open>
  C3 holds of the method and fails of the tool. With an empty second name,
  \<^verbatim>\<open>compareSchemas\<close> returns one record for each spec whose \<^verbatim>\<open>schemas\<close> have a
  truthy member of that name (\<open>compareSchemas_single\<close>). The handler of \<^verbatim>\<open>compare_schemas\<close> replaces an omitted
  \<^verbatim>\<open>schema2\<close> by \<^verbatim>\<open>schema1\<close> before the call, so the method looks the one name up
  twice (\<open>compare_schemas_tool_default\<close>): on the registry of the repository's tests the
  method returns the two records of \<^verbatim>\<open>User\<close>, and the tool, called with
  \<^verbatim>\<open>schema1\<close> alone, returns each of them twice.
\<close>

theorem compare_schemas_tool_duplicates:
  "compareSchemas [users1, users2] ''User'' [] =
     [user_record ''api1.json'' ''API 1'', user_record ''api2.json'' ''API 2'']
   \<and> call_tool (analyzer_of [users1, users2]) Compare_schemas
         (Some (blank_args\<lparr> arg_schema1 := Some ''User'' \<rparr>)) =
       Pretty (Comparisons
         [user_record ''api1.json'' ''API 1'', user_record ''api1.json'' ''API 1'',
          user_record ''api2.json'' ''API 2'', user_record ''api2.json'' ''API 2''])"
  by code_simp

section \<open>The queries leave the registry as it is\<close>

lemma tr_weaken:
  assumes "tr R P' p Q'" and "\<And>st. P st \<Longrightarrow> P' st" and "\<And>x st. Q' x st \<Longrightarrow> Q x st"
  shows "tr R P p Q"
  using assms unfolding tr_def by blast

lemma tr_pure:
  assumes "C \<Longrightarrow> tr R P p Q"
  shows "tr R (\<lambda>st. C \<and> P st) p Q"
  using assms unfolding tr_def by blast

lemma tr_ret:
  assumes "\<And>st. P st \<Longrightarrow> Q x st"
  shows "tr R P (ret x) Q"
  using assms by (simp add: tr_def ret_def)

lemma tr_throw: "tr R P throw_p Q"
  by (simp add: tr_def throw_p_def)

lemma tr_reading:
  assumes "\<And>st x. P st \<Longrightarrow> st_old st = R \<Longrightarrow> f st = Inr x \<Longrightarrow> Q x st"
  shows "tr R P (reading f) Q"
  using assms by (simp add: tr_def reading_def)

lemma tr_make:
  assumes "\<And>st. P st \<Longrightarrow> Q (VRef (New (length (st_new st)))) (st\<lparr> st_new := st_new st @ [ob] \<rparr>)"
  shows "tr R P (make ob) Q"
  using assms by (simp add: tr_def make_def)

lemma tr_bind:
  assumes p: "tr R P p Q" and f: "\<And>x. tr R (Q x) (f x) Q'"
  shows "tr R P (bind_p p f) Q'"
  unfolding tr_def
proof (intro allI impI)
  fix st assume o: "st_old st = R" and "P st"
  with p obtain r st' where r: "p st = Some (r, st')" "st_old st' = R" "\<forall>x. r = Inr x \<longrightarrow> Q x st'"
    unfolding tr_def by blast
  show "\<exists>r st'. bind_p p f st = Some (r, st') \<and> st_old st' = R \<and> (\<forall>x. r = Inr x \<longrightarrow> Q' x st')"
  proof (cases r)
    case (Inl e)
    with r show ?thesis by (simp add: bind_p_def)
  next
    case (Inr x)
    with r have "Q x st'" by simp
    with f [of x] r(2) obtain r2 st2
      where "f x st' = Some (r2, st2)" "st_old st2 = R" "\<forall>y. r2 = Inr y \<longrightarrow> Q' y st2"
      unfolding tr_def by blast
    with r Inr show ?thesis by (simp add: bind_p_def)
  qed
qed

lemma keeps_ret: "keeps R J (ret x)"
  unfolding keeps_def by (rule tr_ret)

lemma keeps_throw: "keeps R J throw_p"
  unfolding keeps_def by (rule tr_throw)

lemma keeps_reading: "keeps R J (reading f)"
  unfolding keeps_def by (rule tr_reading)

lemma keeps_bind:
  assumes "keeps R J p" and "\<And>x. keeps R J (f x)"
  shows "keeps R J (bind_p p f)"
  using assms unfolding keeps_def by (rule tr_bind)

lemma keeps_if:
  assumes "c \<Longrightarrow> keeps R J p" and "\<not> c \<Longrightarrow> keeps R J q"
  shows "keeps R J (if c then p else q)"
  using assms by simp

lemma keeps_pair:
  assumes "\<And>a b. keeps R J (f a b)"
  shows "keeps R J (case x of (a, b) \<Rightarrow> f a b)"
  using assms by (cases x) simp

lemma keeps_option:
  assumes "keeps R J p" and "\<And>y. keeps R J (f y)"
  shows "keeps R J (case x of None \<Rightarrow> p | Some y \<Rightarrow> f y)"
  using assms by (cases x) simp_all

lemma keeps_for_each:
  assumes "\<And>x. keeps R J (body x)"
  shows "keeps R J (for_each_p body xs)"
  by (induction xs) (auto intro: keeps_ret keeps_bind assms)

lemma keeps_fold:
  assumes "\<And>s x. keeps R J (body s x)"
  shows "keeps R J (fold_p body xs s)"
  by (induction xs arbitrary: s) (auto intro: keeps_ret keeps_bind assms)

lemma keeps_make:
  assumes "stable J"
  shows "keeps R J (make ob)"
  unfolding keeps_def using assms by (intro tr_make) (simp add: stable_def)

lemma keeps_make_bind:
  assumes s: "stable J" and f: "\<And>k. keeps R J (f (VRef (New k)))"
  shows "keeps R J (bind_p (make ob) f)"
  unfolding keeps_def
proof (rule tr_bind)
  show "tr R J (make ob) (\<lambda>x st. (\<exists>k. x = VRef (New k)) \<and> J st)"
    using s by (intro tr_make) (simp add: stable_def)
next
  fix x
  show "tr R (\<lambda>st. (\<exists>k. x = VRef (New k)) \<and> J st) (f x) (\<lambda>x. J)"
  proof (rule tr_pure)
    assume "\<exists>k. x = VRef (New k)"
    then obtain k where "x = VRef (New k)" ..
    with f [of k] show "tr R J (f x) (\<lambda>x. J)" by (simp add: keeps_def)
  qed
qed

subsection \<open>Reads and writes\<close>

lemma keeps_get: "keeps R J (get_p v k)"
  unfolding get_p_def by (rule keeps_reading)

lemma keeps_opt_get: "keeps R J (opt_get_p v k)"
  unfolding opt_get_p_def by (simp add: keeps_ret keeps_get)

lemma keeps_entries: "keeps R J (entries_p v)"
  unfolding entries_p_def by (rule keeps_reading)

lemma keeps_keys: "keeps R J (keys_p v)"
  unfolding keys_p_def by (intro keeps_bind keeps_entries keeps_ret)

lemma keeps_text: "keeps R J (text_p v)"
  unfolding text_p_def by (rule keeps_reading)

lemma keeps_join: "keeps R J (join_p sep vs)"
  unfolding join_p_def by (rule keeps_reading)

lemma put_new_old: "st_old (put_obj st (New k) ob) = st_old st"
  by (simp add: put_obj_def)

lemma local_cases:
  assumes "local_val target"
  obtains k where "target = VRef (New k)" | "\<And>r. target \<noteq> VRef r"
proof (cases target)
  case (VRef r)
  with assms obtain k where "r = New k" by (cases r) (auto simp: local_val_def)
  with VRef that(1) show ?thesis by simp
qed (auto intro: that(2))

lemma keeps_push:
  assumes s: "stable J" and l: "local_val target"
  shows "keeps R J (array_push target x)"
proof (rule local_cases [OF l])
  fix k assume "target = VRef (New k)"
  with s show ?thesis
    by (auto simp: keeps_def tr_def array_push_def stable_def put_new_old
        split: option.splits obj.splits)
next
  assume "\<And>r. target \<noteq> VRef r"
  then show ?thesis
    by (cases target) (auto simp: keeps_def tr_def array_push_def)
qed

lemma keeps_increment:
  assumes s: "stable J" and l: "local_val target"
  shows "keeps R J (increment_at target k)"
proof (rule local_cases [OF l])
  fix j assume "target = VRef (New j)"
  with s show ?thesis
    by (auto simp: keeps_def tr_def increment_at_def stable_def put_new_old
        split: option.splits obj.splits)
next
  assume "\<And>r. target \<noteq> VRef r"
  then show ?thesis
    by (cases target) (auto simp: keeps_def tr_def increment_at_def)
qed

lemma keeps_set_add:
  assumes s: "stable J" and l: "local_val target"
  shows "keeps R J (set_add_p target x)"
proof (rule local_cases [OF l])
  fix k assume "target = VRef (New k)"
  with s show ?thesis
    by (auto simp: keeps_def tr_def set_add_p_def stable_def put_new_old
        split: option.splits obj.splits)
next
  assume "\<And>r. target \<noteq> VRef r"
  then show ?thesis
    by (cases target) (auto simp: keeps_def tr_def set_add_p_def)
qed

lemma keeps_sorted_array:
  assumes "stable J"
  shows "keeps R J (sorted_array_p target)"
  unfolding sorted_array_p_def by (intro keeps_bind keeps_reading keeps_make assms)

lemma keeps_map_has: "keeps R J (map_has_p target k)"
  unfolding map_has_p_def by (intro keeps_bind keeps_reading keeps_ret)

lemma keeps_map_size: "keeps R J (map_size_p target)"
  unfolding map_size_p_def by (intro keeps_bind keeps_reading keeps_ret)

lemma keeps_from_entries:
  assumes "stable J"
  shows "keeps R J (from_entries_p target)"
  unfolding from_entries_p_def entry_p_def
  by (intro keeps_bind keeps_reading keeps_fold keeps_text keeps_ret keeps_make assms)

lemma local_new: "local_val (VRef (New k))"
  by (simp add: local_val_def)

lemma stable_true: "stable (\<lambda>st. True)"
  by (simp add: stable_def)

subsection \<open>The loop over the array of specs\<close>

lemma elem_at_old:
  "st_old st = R \<Longrightarrow> elem_at (Old a) i st = Some x \<Longrightarrow> i < old_length R a"
  by (auto simp: elem_at_def obj_at_def old_length_def split: if_splits obj.splits)

lemma for_of_from_old:
  assumes body: "\<And>x. keeps R J (body x)"
  shows "st_old st = R \<Longrightarrow> J st \<Longrightarrow>
     \<exists>r st'. for_of_from (Old a) body i st = Some (r, st') \<and> st_old st' = R
        \<and> (\<forall>x. r = Inr x \<longrightarrow> J st')"
proof (induction "old_length R a - i" arbitrary: i st rule: less_induct)
  case less
  show ?case
  proof (cases "elem_at (Old a) i st")
    case None
    with less.prems show ?thesis by (subst for_of_from.simps) simp
  next
    case (Some x)
    have i: "i < old_length R a" by (rule elem_at_old [OF less.prems(1) Some])
    from body [of x] less.prems obtain r st'
      where b: "body x st = Some (r, st')" "st_old st' = R" "\<forall>u. r = Inr u \<longrightarrow> J st'"
      unfolding keeps_def tr_def by blast
    show ?thesis
    proof (cases r)
      case (Inl e)
      with Some b show ?thesis by (subst for_of_from.simps) simp
    next
      case (Inr u)
      with b have j: "J st'" by simp
      have "old_length R a - (i + 1) < old_length R a - i" using i by simp
      from less.hyps [OF this b(2) j] Some b Inr show ?thesis
        by (subst for_of_from.simps) simp
    qed
  qed
qed

lemma new_array_empty:
  "new_arrays_empty st \<Longrightarrow> obj_at st (New k) = Some (OArr xs) \<Longrightarrow> xs = []"
  by (auto simp: new_arrays_empty_def obj_at_def list_all_length split: if_splits)

lemma tr_for_of:
  assumes body: "\<And>x. keeps R J (body x)"
  shows "tr R (\<lambda>st. J st \<and> new_arrays_empty st) (for_of v body) (\<lambda>u. J)"
  unfolding tr_def
proof (intro allI impI)
  fix st assume o: "st_old st = R" and p: "J st \<and> new_arrays_empty st"
  let ?goal = "\<exists>r st'. for_of v body st = Some (r, st') \<and> st_old st' = R
      \<and> (\<forall>x. r = Inr x \<longrightarrow> J st')"
  have throws: "for_of v body st = Some (Inl TypeError, st) \<Longrightarrow> ?goal"
    using o by simp
  show ?goal
  proof (cases v)
    case (VStr s)
    have "keeps R J (for_each_p body (map (\<lambda>c. VStr [c]) s))"
      by (rule keeps_for_each) (rule body)
    with o p VStr show ?thesis
      unfolding keeps_def tr_def for_of_def by simp
  next
    case (VRef r)
    show ?thesis
    proof (cases "\<exists>xs. obj_at st r = Some (OArr xs)")
      case False
      with VRef show ?thesis
        by (intro throws) (auto simp: for_of_def split: option.splits obj.splits)
    next
      case True
      then obtain xs where xs: "obj_at st r = Some (OArr xs)" ..
      show ?thesis
      proof (cases r)
        case (Old a)
        from p have "J st" by simp
        from for_of_from_old [OF body o this, where a = a and i = 0] VRef xs Old
        show ?thesis by (simp add: for_of_def)
      next
        case (New k)
        with xs p have "xs = []" by (auto dest: new_array_empty)
        with xs New have "elem_at (New k) 0 st = None" by (simp add: elem_at_def)
        then have "for_of_from (New k) body 0 st = Some (Inr (), st)"
          by (subst for_of_from.simps) simp
        with VRef xs New o p show ?thesis by (simp add: for_of_def)
      qed
    qed
  qed (use o in \<open>auto simp: for_of_def\<close>)
qed

subsection \<open>The bodies of the loops\<close>

lemma summary_keeps:
  assumes "stable J"
  shows "keeps R J (summary_s sp)"
  unfolding summary_s_def
  by (intro keeps_bind keeps_get keeps_opt_get keeps_if keeps_keys keeps_ret keeps_make assms)

lemma map_round_keeps:
  assumes "stable J" and "local_val result" and "\<And>y. keeps R J (f y)"
  shows "keeps R J (map_round v f result i)"
  unfolding map_round_def
  by (intro keeps_bind keeps_reading keeps_option keeps_ret keeps_push assms)

lemma find_rounds_keeps:
  assumes "\<And>y. keeps R J (f y)"
  shows "keeps R J (find_rounds v f idx)"
  by (induction idx)
     (auto simp: Let_def intro!: keeps_ret keeps_bind keeps_reading keeps_if assms)

lemma search_operation_keeps:
  assumes "stable J" and "local_val results"
  shows "keeps R J (search_operation_s q results sp path mo)"
  unfolding search_operation_s_def
  by (intro keeps_pair keeps_if keeps_ret keeps_make_bind keeps_bind keeps_get keeps_opt_get
      keeps_join keeps_push assms)

lemma search_path_keeps:
  assumes "stable J" and "local_val results"
  shows "keeps R J (search_path_s q results sp pi)"
  unfolding search_path_s_def
  by (intro keeps_pair keeps_bind keeps_entries keeps_for_each search_operation_keeps assms)

lemma search_spec_keeps:
  assumes "stable J" and "local_val results"
  shows "keeps R J (search_spec_s q results sp)"
  unfolding search_spec_s_def
  by (intro keeps_bind keeps_get keeps_if keeps_ret keeps_entries keeps_for_each
      search_path_keeps assms)

lemma compare_name_keeps:
  assumes "stable J" and "local_val schemas"
  shows "keeps R J (compare_name_s schemas sp n)"
  unfolding compare_name_s_def
  by (intro keeps_if keeps_ret keeps_make_bind keeps_bind keeps_get keeps_opt_get keeps_push
      assms)

lemma compare_spec_keeps:
  assumes "stable J" and "local_val schemas"
  shows "keeps R J (compare_spec_s schemas ns sp)"
  unfolding compare_spec_s_def
  by (intro keeps_bind keeps_get keeps_opt_get keeps_if keeps_ret keeps_for_each
      compare_name_keeps assms)

subsection \<open>The objects that getApiStats and findInconsistencies write through\<close>

lemma obj_at_make:
  "obj_at st (New k) = Some ob' \<Longrightarrow> obj_at (st\<lparr> st_new := st_new st @ [ob] \<rparr>) (New k) = Some ob'"
  by (auto simp: obj_at_def nth_append split: if_splits)

lemma obj_at_put:
  "obj_at (put_obj st (New k) ob) (New j) =
     (if j = k \<and> k < length (st_new st) then Some ob else obj_at st (New j))"
  by (auto simp: obj_at_def put_obj_def)

lemma stable_stats: "stable stats_inv"
  unfolding stable_def stats_inv_def
  by (auto simp: obj_at_put dest: obj_at_make)

lemma stable_auth: "stable auth_inv"
  unfolding stable_def auth_inv_def
  by (auto simp: obj_at_put dest: obj_at_make)

lemma local_builtin: "local_val (VBuiltin k)" and local_undef: "local_val VUndef"
  by (simp_all add: local_val_def)

lemma stats_field_local:
  assumes "stats_inv st" and "k \<in> set stats_fields" and "read_prop st (VRef (New 4)) k = Inr v"
  shows "local_val v"
proof -
  from assms(1) obtain kvs where o: "obj_at st (New 4) = Some (OObj kvs)"
    and l: "\<And>v. map_of kvs k = Some v \<Longrightarrow> local_val v"
    using assms(2) unfolding stats_inv_def by blast
  show ?thesis
  proof (cases "map_of kvs k")
    case None
    with o assms(3) show ?thesis by (auto simp: local_val_def split: if_splits)
  next
    case (Some w)
    with o assms(3) have "v = w" by simp
    with l [OF Some] show ?thesis by simp
  qed
qed

lemma keeps_stats_field:
  assumes k: "k \<in> set stats_fields" and f: "\<And>v. local_val v \<Longrightarrow> keeps R stats_inv (f v)"
  shows "keeps R stats_inv (bind_p (get_p (VRef (New 4)) k) f)"
  unfolding keeps_def
proof (rule tr_bind)
  show "tr R stats_inv (get_p (VRef (New 4)) k) (\<lambda>v st. local_val v \<and> stats_inv st)"
    unfolding get_p_def by (rule tr_reading) (auto intro: stats_field_local [OF _ k])
next
  fix v
  show "tr R (\<lambda>st. local_val v \<and> stats_inv st) (f v) (\<lambda>x. stats_inv)"
    by (rule tr_pure) (use f [of v] in \<open>simp add: keeps_def\<close>)
qed

lemma keeps_methodCounts:
  "(\<And>v. local_val v \<Longrightarrow> keeps R stats_inv (f v)) \<Longrightarrow>
     keeps R stats_inv (bind_p (get_p (VRef (New 4)) ''methodCounts'') f)"
  by (rule keeps_stats_field) (simp_all add: stats_fields_def)

lemma keeps_commonPaths:
  "(\<And>v. local_val v \<Longrightarrow> keeps R stats_inv (f v)) \<Longrightarrow>
     keeps R stats_inv (bind_p (get_p (VRef (New 4)) ''commonPaths'') f)"
  by (rule keeps_stats_field) (simp_all add: stats_fields_def)

lemma keeps_versions:
  "(\<And>v. local_val v \<Longrightarrow> keeps R stats_inv (f v)) \<Longrightarrow>
     keeps R stats_inv (bind_p (get_p (VRef (New 4)) ''versions'') f)"
  by (rule keeps_stats_field) (simp_all add: stats_fields_def)

lemma keeps_apis:
  "(\<And>v. local_val v \<Longrightarrow> keeps R stats_inv (f v)) \<Longrightarrow>
     keeps R stats_inv (bind_p (get_p (VRef (New 4)) ''apis'') f)"
  by (rule keeps_stats_field) (simp_all add: stats_fields_def)

lemma keeps_totalEndpoints:
  "keeps R stats_inv (add_to_field (VRef (New 4)) ''totalEndpoints'' n)"
  unfolding keeps_def tr_def add_to_field_def stats_inv_def
  by (auto simp: put_new_old obj_at_put map_of_set_prop stats_fields_def
      split: option.splits obj.splits val.splits)

lemma auth_value_local:
  assumes "auth_inv st" and "map_entries (VRef (New 1)) st = Inr es"
  shows "local_val (case map_of es k of None \<Rightarrow> VUndef | Some v \<Rightarrow> v)"
proof (cases "map_of es k")
  case None
  then show ?thesis by (simp add: local_undef)
next
  case (Some v)
  then have "v \<in> snd ` set es" by (auto dest: map_of_SomeD intro: rev_image_eqI)
  with assms Some show ?thesis
    by (auto simp: auth_inv_def map_entries_def)
qed

lemma keeps_map_get:
  assumes f: "\<And>v. local_val v \<Longrightarrow> keeps R auth_inv (f v)"
  shows "keeps R auth_inv (bind_p (map_get_p (VRef (New 1)) k) f)"
  unfolding keeps_def
proof (rule tr_bind)
  show "tr R auth_inv (map_get_p (VRef (New 1)) k) (\<lambda>v st. local_val v \<and> auth_inv st)"
    unfolding map_get_p_def
  proof (rule tr_bind)
    show "tr R auth_inv (reading (map_entries (VRef (New 1))))
        (\<lambda>es st. auth_inv st \<and> map_entries (VRef (New 1)) st = Inr es)"
      by (rule tr_reading) simp
  next
    fix es
    show "tr R (\<lambda>st. auth_inv st \<and> map_entries (VRef (New 1)) st = Inr es)
        (ret (case map_of es k of None \<Rightarrow> VUndef | Some v \<Rightarrow> v))
        (\<lambda>v st. local_val v \<and> auth_inv st)"
      by (rule tr_ret) (auto intro: auth_value_local)
  qed
next
  fix v
  show "tr R (\<lambda>st. local_val v \<and> auth_inv st) (f v) (\<lambda>x. auth_inv)"
    by (rule tr_pure) (use f [of v] in \<open>simp add: keeps_def\<close>)
qed

lemma set_entry_values: "snd ` set (set_entry es k v) \<subseteq> insert v (snd ` set es)"
  by (induction es k v rule: set_entry.induct) auto

lemma keeps_map_set:
  assumes "local_val v"
  shows "keeps R auth_inv (map_set_p (VRef (New 1)) k v)"
proof -
  have "\<And>es w. \<forall>u \<in> snd ` set es. local_val u \<Longrightarrow> w \<in> snd ` set (set_entry es k v) \<Longrightarrow> local_val w"
    using set_entry_values [of _ k v] assms by blast
  then show ?thesis
    unfolding keeps_def tr_def map_set_p_def auth_inv_def
    by (auto simp: put_new_old obj_at_put split: option.splits obj.splits)
qed

lemma stats_method_keeps:
  assumes "local_val members"
  shows "keeps R stats_inv (stats_method_s (VRef (New 4)) members n m)"
  unfolding stats_method_s_def
  by (rule keeps_if keeps_ret keeps_methodCounts keeps_bind keeps_set_add keeps_increment
      stable_stats assms | assumption)+

lemma stats_path_keeps:
  assumes "local_val members"
  shows "keeps R stats_inv (stats_path_s (VRef (New 4)) members n pi)"
  unfolding stats_path_s_def
  by (rule keeps_pair keeps_ret keeps_commonPaths keeps_bind keeps_keys keeps_fold
      keeps_increment stats_method_keeps stable_stats assms | assumption)+

lemma stats_spec_keeps: "keeps R stats_inv (stats_spec_s (VRef (New 4)) sp)"
  unfolding stats_spec_s_def
  by (rule keeps_if keeps_ret keeps_make_bind keeps_versions keeps_apis keeps_bind keeps_get
      keeps_opt_get keeps_entries keeps_fold keeps_text keeps_totalEndpoints keeps_increment
      keeps_sorted_array keeps_push stats_path_keeps stable_stats local_new | assumption)+

lemma auth_scheme_keeps: "keeps R auth_inv (auth_scheme_s (VRef (New 1)) sp ns)"
  unfolding auth_scheme_s_def
  by (rule keeps_pair keeps_if keeps_ret keeps_make_bind keeps_map_get keeps_bind keeps_get
      keeps_map_has keeps_map_set keeps_text keeps_push stable_auth local_new | assumption)+

lemma auth_spec_keeps: "keeps R auth_inv (auth_spec_s (VRef (New 1)) sp)"
  unfolding auth_spec_s_def
  by (rule keeps_if keeps_ret keeps_bind keeps_get keeps_opt_get keeps_entries keeps_for_each
      auth_scheme_keeps)+

subsection \<open>The methods\<close>

lemma tr_read_bind:
  assumes "\<And>x. tr R P (f x) Q"
  shows "tr R P (bind_p (reading g) f) Q"
  by (rule tr_bind [where Q = "\<lambda>x. P"]) (rule tr_reading, assumption, rule assms)

lemma tr_get_bind:
  assumes "\<And>x. tr R P (f x) Q"
  shows "tr R P (bind_p (get_p v k) f) Q"
  unfolding get_p_def using assms by (rule tr_read_bind)

lemma tr_make_bind:
  assumes "tr R (\<lambda>st. st_new st = L @ [ob]) (f (VRef (New (length L)))) Q"
  shows "tr R (\<lambda>st. st_new st = L) (bind_p (make ob) f) Q"
proof (rule tr_bind)
  show "tr R (\<lambda>st. st_new st = L) (make ob)
      (\<lambda>x st. x = VRef (New (length L)) \<and> st_new st = L @ [ob])"
    by (rule tr_make) simp
next
  fix x
  show "tr R (\<lambda>st. x = VRef (New (length L)) \<and> st_new st = L @ [ob]) (f x) Q"
    by (rule tr_pure) (use assms in simp)
qed

lemma tr_loop:
  assumes body: "\<And>x. keeps R J (body x)"
    and start: "\<And>st. P st \<Longrightarrow> J st \<and> new_arrays_empty st"
    and rest: "\<And>u. keeps R J (g u)"
  shows "tr R P (bind_p (for_of v body) g) (\<lambda>x st. True)"
proof (rule tr_bind)
  show "tr R P (for_of v body) (\<lambda>u. J)"
    by (rule tr_weaken [OF tr_for_of [OF body]]) (auto dest: start)
next
  fix u
  show "tr R J (g u) (\<lambda>x st. True)"
    by (rule tr_weaken [OF rest [unfolded keeps_def]]) simp_all
qed

lemma keeps_start:
  assumes "keeps R (\<lambda>st. True) p"
  shows "tr R (\<lambda>st. st_new st = []) p (\<lambda>x st. True)"
  by (rule tr_weaken [OF assms [unfolded keeps_def]]) simp_all

lemma array_map_keeps:
  assumes "stable J" and "\<And>y. keeps R J (f y)"
  shows "keeps R J (array_map v f)"
  unfolding array_map_def
  by (rule keeps_make_bind keeps_bind keeps_reading keeps_for_each map_round_keeps keeps_ret
      local_new assms)+

lemma listAllSpecs_frames: "tr R (\<lambda>st. st_new st = []) (listAllSpecs_s this) (\<lambda>x st. True)"
  unfolding listAllSpecs_s_def
  by (rule keeps_start)
     (rule keeps_bind keeps_get array_map_keeps summary_keeps stable_true)+

lemma getLoadedSources_frames:
  "tr R (\<lambda>st. st_new st = []) (getLoadedSources_s this) (\<lambda>x st. True)"
  unfolding getLoadedSources_s_def by (rule keeps_start) (rule keeps_get)

lemma getSpecByFilename_frames:
  "tr R (\<lambda>st. st_new st = []) (getSpecByFilename_s this f) (\<lambda>x st. True)"
  unfolding getSpecByFilename_s_def array_find_def
  by (rule keeps_start)
     (rule keeps_if keeps_ret keeps_bind keeps_get keeps_reading find_rounds_keeps)+

lemma searchEndpoints_frames:
  "tr R (\<lambda>st. st_new st = []) (searchEndpoints_s this q) (\<lambda>x st. True)"
  unfolding searchEndpoints_s_def
proof (rule tr_make_bind, rule tr_get_bind, rule tr_loop [where J = "\<lambda>st. True"])
  fix x
  show "keeps R (\<lambda>st. True) (search_spec_s (toLowerCase q) (VRef (New (length []))) x)"
    by (rule search_spec_keeps [OF stable_true local_new])
next
  fix st :: store
  assume "st_new st = [] @ [OArr []]"
  then show "True \<and> new_arrays_empty st" by (simp add: new_arrays_empty_def)
next
  fix u :: unit
  show "keeps R (\<lambda>st. True) (ret (VRef (New (length []))))" by (rule keeps_ret)
qed

lemma compareSchemas_frames:
  "tr R (\<lambda>st. st_new st = []) (compareSchemas_s this n1 n2) (\<lambda>x st. True)"
  unfolding compareSchemas_s_def
proof (rule tr_make_bind, rule tr_get_bind, rule tr_loop [where J = "\<lambda>st. True"])
  fix x
  show "keeps R (\<lambda>st. True)
      (compare_spec_s (VRef (New (length []))) (if n2 \<noteq> [] then [n1, n2] else [n1]) x)"
    by (rule compare_spec_keeps [OF stable_true local_new])
next
  fix st :: store
  assume "st_new st = [] @ [OArr []]"
  then show "True \<and> new_arrays_empty st" by (simp add: new_arrays_empty_def)
next
  fix u :: unit
  show "keeps R (\<lambda>st. True) (ret (VRef (New (length []))))" by (rule keeps_ret)
qed

lemma findInconsistencies_frames:
  "tr R (\<lambda>st. st_new st = []) (findInconsistencies_s this) (\<lambda>x st. True)"
  unfolding findInconsistencies_s_def
proof (rule tr_make_bind, rule tr_make_bind, rule tr_get_bind, rule tr_loop [where J = auth_inv])
  fix x
  show "keeps R auth_inv (auth_spec_s (VRef (New (length ([] @ [OArr []])))) x)"
    using auth_spec_keeps [of R x] by simp
next
  fix st :: store
  assume "st_new st = ([] @ [OArr []]) @ [OMap []]"
  then show "auth_inv st \<and> new_arrays_empty st"
    by (simp add: new_arrays_empty_def auth_inv_def obj_at_def)
next
  fix u :: unit
  show "keeps R auth_inv
      (bind_p (map_size_p (VRef (New (length ([] @ [OArr []])))))
         (\<lambda>size.
            bind_p
              (if 1 < size
               then bind_p (from_entries_p (VRef (New (length ([] @ [OArr []])))))
                      (\<lambda>details.
                         bind_p
                           (make (OObj [(''type'', VStr ''authentication''),
                                        (''message'',
                                         VStr ''Multiple authentication schemes found across APIs''),
                                        (''details'', details)]))
                           (array_push (VRef (New (length [])))))
               else ret ())
              (\<lambda>u. ret (VRef (New (length []))))))"
    by (rule keeps_if keeps_ret keeps_make_bind keeps_bind keeps_map_size keeps_from_entries
        keeps_push stable_auth local_new)+
qed

lemma getApiStats_frames: "tr R (\<lambda>st. st_new st = []) (getApiStats_s this) (\<lambda>x st. True)"
  unfolding getApiStats_s_def
proof (rule tr_get_bind, rule tr_get_bind, (rule tr_make_bind)+, rule tr_get_bind,
    rule tr_loop [where J = stats_inv])
  fix n x
  show "keeps R stats_inv
      (stats_spec_s
         (VRef (New (length (((([] @ [OCounts []]) @ [OCounts []]) @ [OCounts []]) @ [OArr []])))) x)"
    using stats_spec_keeps [of R x] by (simp add: eval_nat_numeral)
next
  fix st :: store and n
  assume "st_new st =
      (((([] @ [OCounts []]) @ [OCounts []]) @ [OCounts []]) @ [OArr []]) @
      [OObj [(''totalApis'', n), (''totalEndpoints'', VNum ''0''),
             (''methodCounts'', VRef (New (length []))),
             (''commonPaths'', VRef (New (length ([] @ [OCounts []])))),
             (''versions'', VRef (New (length (([] @ [OCounts []]) @ [OCounts []])))),
             (''apis'', VRef (New (length ((([] @ [OCounts []]) @ [OCounts []]) @ [OCounts []]))))]]"
  then show "stats_inv st \<and> new_arrays_empty st"
    by (auto simp: new_arrays_empty_def stats_inv_def obj_at_def stats_fields_def local_val_def)
next
  fix u :: unit
  show "keeps R stats_inv
      (ret (VRef (New (length (((([] @ [OCounts []]) @ [OCounts []]) @ [OCounts []]) @ [OArr []])))))"
    by (rule keeps_ret)
qed

lemma method_frames: "tr R (\<lambda>st. st_new st = []) (method_of q this) (\<lambda>x st. True)"
  by (cases q)
     (simp_all add: method_of_def listAllSpecs_frames getLoadedSources_frames
        getSpecByFilename_frames searchEndpoints_frames getApiStats_frames
        findInconsistencies_frames compareSchemas_frames)

lemma call_frames: "\<exists>out L. call R a q = Some (out, \<lparr> st_old = R, st_new = L \<rparr>)"
proof -
  have "st_old \<lparr> st_old = R, st_new = [] \<rparr> = R" and "st_new \<lparr> st_old = R, st_new = [] \<rparr> = []"
    by simp_all
  with method_frames [of R q "VRef (Old a)"] obtain r st'
    where c: "call R a q = Some (r, st')" and o: "st_old st' = R"
    unfolding tr_def call_def by blast
  from o have "st' = \<lparr> st_old = R, st_new = st_new st' \<rparr>" by (cases st') simp
  with c show ?thesis by metis
qed

lemma run_frames: "\<exists>outs. run R a qs = Some (outs, R) \<and> length outs = length qs"
proof (induction qs)
  case Nil
  show ?case by simp
next
  case (Cons q qs)
  from call_frames [of R a q] obtain out L
    where c: "call R a q = Some (out, \<lparr> st_old = R, st_new = L \<rparr>)" by blast
  from Cons obtain outs where r: "run R a qs = Some (outs, R)" "length outs = length qs"
    by blast
  from c r have "run R a (q # qs) = Some ((out, L) # outs, R)" by simp
  with r(2) show ?case by simp
qed

text \<open>
  On the example registry the first embedding returns the two hits that the second one
  makes (the objects at the new addresses 1 and 2 of the example below).
\<close>

lemma small_api_hits:
  "searchEndpoints [small_api] ''USER'' =
     Inr [\<lparr> r_filename = ''test.json'', r_api_title = Some ''Test API'',
             r_path = ''/users/{id}'', r_method = ''GET'',
             r_summary = Some (JStr ''Get a user''), r_description = None,
             r_operationId = Some (JStr ''getUser'') \<rparr>,
          \<lparr> r_filename = ''test.json'', r_api_title = Some ''Test API'',
             r_path = ''/users/{id}'', r_method = ''POST'',
             r_summary = Some (JStr ''Change a user''), r_description = None,
             r_operationId = None \<rparr>]"
  by code_simp

text \<open>
  C9. Every query method, called on any analyzer in any store of objects, returns or
  throws and leaves every object that existed before the call as it was: the analyzer, its
  array of specs, every entry of it and every node of every document. So does any sequence
  of calls, and a call that is repeated returns the same value and has made the same
  objects as the first time.
\<close>

theorem queries_leave_registry:
  "(\<exists>out L. call R a q = Some (out, \<lparr> st_old = R, st_new = L \<rparr>))
   \<and> (\<exists>outs. run R a qs = Some (outs, R) \<and> length outs = length qs)
   \<and> (\<exists>out L. run R a [q, q] = Some ([(out, L), (out, L)], R))"
proof (intro conjI)
  show "\<exists>out L. call R a q = Some (out, \<lparr> st_old = R, st_new = L \<rparr>)"
    by (rule call_frames)
  show "\<exists>outs. run R a qs = Some (outs, R) \<and> length outs = length qs"
    by (rule run_frames)
  from call_frames [of R a q] obtain out L
    where "call R a q = Some (out, \<lparr> st_old = R, st_new = L \<rparr>)" by blast
  then have "run R a [q, q] = Some ([(out, L), (out, L)], R)" by simp
  then show "\<exists>out L. run R a [q, q] = Some ([(out, L), (out, L)], R)" by blast
qed

theorem queries_leave_registry_witness:
  "call small_registry 0 (SearchEndpoints ''USER'') =
     Some (Inr (VRef (New 0)),
       \<lparr> st_old = small_registry,
         st_new =
           [OArr [VRef (New 1), VRef (New 2)],
            OObj [(''filename'', VStr ''test.json''), (''api_title'', VStr ''Test API''),
                  (''path'', VStr ''/users/{id}''), (''method'', VStr ''GET''),
                  (''summary'', VStr ''Get a user''), (''description'', VUndef),
                  (''operationId'', VStr ''getUser'')],
            OObj [(''filename'', VStr ''test.json''), (''api_title'', VStr ''Test API''),
                  (''path'', VStr ''/users/{id}''), (''method'', VStr ''POST''),
                  (''summary'', VStr ''Change a user''), (''description'', VUndef),
                  (''operationId'', VUndef)]] \<rparr>)
   \<and> (\<exists>outs. run small_registry 0 [GetApiStats, SearchEndpoints ''USER'', FindInconsistencies]
          = Some (outs, small_registry) \<and> length outs = 3)"
proof -
  note th = queries_leave_registry [of small_registry 0 "SearchEndpoints ''USER''"
      "[GetApiStats, SearchEndpoints ''USER'', FindInconsistencies]"]
  from conjunct1 [OF th] obtain out L
    where c: "call small_registry 0 (SearchEndpoints ''USER'')
        = Some (out, \<lparr> st_old = small_registry, st_new = L \<rparr>)"
    by (elim exE)
  have e: "map_option (\<lambda>r. (fst r, st_new (snd r))) (call small_registry 0 (SearchEndpoints ''USER'')) =
     Some (Inr (VRef (New 0)),
           [OArr [VRef (New 1), VRef (New 2)],
            OObj [(''filename'', VStr ''test.json''), (''api_title'', VStr ''Test API''),
                  (''path'', VStr ''/users/{id}''), (''method'', VStr ''GET''),
                  (''summary'', VStr ''Get a user''), (''description'', VUndef),
                  (''operationId'', VStr ''getUser'')],
            OObj [(''filename'', VStr ''test.json''), (''api_title'', VStr ''Test API''),
                  (''path'', VStr ''/users/{id}''), (''method'', VStr ''POST''),
                  (''summary'', VStr ''Change a user''), (''description'', VUndef),
                  (''operationId'', VUndef)]])"
    by code_simp
  from e c have 1: "call small_registry 0 (SearchEndpoints ''USER'') =
     Some (Inr (VRef (New 0)),
       \<lparr> st_old = small_registry,
         st_new =
           [OArr [VRef (New 1), VRef (New 2)],
            OObj [(''filename'', VStr ''test.json''), (''api_title'', VStr ''Test API''),
                  (''path'', VStr ''/users/{id}''), (''method'', VStr ''GET''),
                  (''summary'', VStr ''Get a user''), (''description'', VUndef),
                  (''operationId'', VStr ''getUser'')],
            OObj [(''filename'', VStr ''test.json''), (''api_title'', VStr ''Test API''),
                  (''path'', VStr ''/users/{id}''), (''method'', VStr ''POST''),
                  (''summary'', VStr ''Change a user''), (''description'', VUndef),
                  (''operationId'', VUndef)]] \<rparr>)"
    by simp
  have l: "length [GetApiStats, SearchEndpoints ''USER'', FindInconsistencies] = 3" by simp
  have 2: "\<exists>outs. run small_registry 0 [GetApiStats, SearchEndpoints ''USER'', FindInconsistencies]
          = Some (outs, small_registry) \<and> length outs = 3"
    using conjunct1 [OF conjunct2 [OF th]] by (simp only: l)
  from 1 2 show ?thesis by (rule conjI)
qed

end
